theory Spec2Isabelle
  imports Main "HOL-Library.Sublist"
begin

section \<open>Python strings\<close>

text \<open>
  A Python \<open>str\<close> is a sequence of Unicode code points. The bullet \<open>U+2022\<close> that
  \<open>app.py\<close> looks for is one character of a \<open>str\<close>, so a string is modelled as the list
  of its code points. ASCII literals are written through \<open>of_ascii\<close>.
\<close>

type_synonym ustr = "nat list"

definition of_ascii :: "string \<Rightarrow> ustr" where
  "of_ascii s = map of_char s"

text \<open>
  The characters \<open>str.strip()\<close> removes when it is called without an argument: those for
  which \<open>str.isspace\<close> holds.
\<close>

definition is_space :: "nat \<Rightarrow> bool" where
  "is_space c =
     (c \<in> {9, 10, 11, 12, 13, 28, 29, 30, 31, 32, 133, 160, 5760,
            8232, 8233, 8239, 8287, 12288}
      \<or> (8192 \<le> c \<and> c \<le> 8202))"

text \<open>\<open>s.strip(...)\<close>: characters are dropped from both ends while they satisfy \<open>P\<close>.\<close>

definition strip_chars :: "(nat \<Rightarrow> bool) \<Rightarrow> ustr \<Rightarrow> ustr" where
  "strip_chars P s = rev (dropWhile P (rev (dropWhile P s)))"

definition strip :: "ustr \<Rightarrow> ustr" where
  "strip s = strip_chars is_space s"

definition strip_set :: "ustr \<Rightarrow> ustr \<Rightarrow> ustr" where
  "strip_set chars s = strip_chars (\<lambda>c. c \<in> set chars) s"

text \<open>\<open>s.split('\n')\<close>: always at least one piece, the pieces hold no newline.\<close>

fun split_nl :: "ustr \<Rightarrow> ustr list" where
  "split_nl [] = [[]]"
| "split_nl (c # cs) =
     (if c = 10 then [] # split_nl cs
      else (case split_nl cs of
              [] \<Rightarrow> [[c]]
            | l # ls \<Rightarrow> (c # l) # ls))"

text \<open>\<open>s.startswith((p1, p2, ...))\<close>\<close>

definition startswith :: "ustr \<Rightarrow> ustr list \<Rightarrow> bool" where
  "startswith s ps = list_ex (\<lambda>p. prefix p s) ps"

section \<open>The two regular-expression substitutions\<close>

text \<open>
  \<open>re.sub(r'\*\*(.*?)\*\*', r'<strong>\1</strong>', s)\<close> in \<open>ask_groq\<close>.
  After an opening \<open>**\<close>, \<open>find_close\<close> looks for the nearest closing \<open>**\<close>: the group
  \<open>(.*?)\<close> is not greedy, and \<open>.\<close> does not match a newline (no \<open>re.DOTALL\<close>), so the
  search fails at the first newline. It returns the group and the text after the match.
\<close>

fun find_close :: "ustr \<Rightarrow> (ustr \<times> ustr) option" where
  "find_close (a # b # rest) =
     (if a = 42 \<and> b = 42 then Some ([], rest)
      else if a = 10 then None
      else map_option (\<lambda>(content, rest'). (a # content, rest')) (find_close (b # rest)))"
| "find_close _ = None"

lemma find_close_shorter:
  "find_close xs = Some (content, rest) \<Longrightarrow> length rest < length xs"
proof (induction xs arbitrary: content rule: find_close.induct)
  case (1 a b rest)
  then show ?case by (auto split: if_splits)
qed simp_all

text \<open>
  \<open>re.sub\<close> scans from the left; where the pattern matches, the match is replaced and
  the scan goes on after it, otherwise the character is copied and the scan moves one
  character on.
\<close>

function bold_sub :: "ustr \<Rightarrow> ustr" where
  "bold_sub [] = []"
| "bold_sub (c # cs) =
     (case (if prefix [42, 42] (c # cs) then find_close (tl cs) else None) of
        Some (content, rest) \<Rightarrow>
          of_ascii ''<strong>'' @ content @ of_ascii ''</strong>'' @ bold_sub rest
      | None \<Rightarrow> c # bold_sub cs)"
  by pat_completeness auto
termination
proof (relation "measure length")
  show "wf (measure length)" by simp
next
  fix c :: nat and cs x2 content rest
  assume "(if prefix [42, 42] (c # cs) then find_close (tl cs) else None) = Some x2"
    and "(content, rest) = x2"
  then have "find_close (tl cs) = Some (content, rest)"
    by (simp split: if_splits)
  then have "length rest < length (tl cs)" by (rule find_close_shorter)
  then show "(rest, c # cs) \<in> measure length" by simp
next
  fix c :: nat and cs
  show "(cs, c # cs) \<in> measure length" by simp
qed

text \<open>
  \<open>re.sub(r'</?strong>', '', line)\<close> in \<open>suggest\<close>: one pass from the left that drops
  every \<open><strong>\<close> and \<open></strong>\<close> it meets.
\<close>

fun strong_sub :: "ustr \<Rightarrow> ustr" where
  "strong_sub [] = []"
| "strong_sub (c # cs) =
     (if prefix (of_ascii ''<strong>'') (c # cs) then strong_sub (drop 7 cs)
      else if prefix (of_ascii ''</strong>'') (c # cs) then strong_sub (drop 8 cs)
      else c # strong_sub cs)"

text \<open>
  A span that the first substitution would convert starts somewhere in the text: an
  opening \<open>**\<close> for which the search for the closing one succeeds.
\<close>

fun has_span :: "ustr \<Rightarrow> bool" where
  "has_span [] = False"
| "has_span (c # cs) =
     ((prefix [42, 42] (c # cs) \<and> find_close (tl cs) \<noteq> None) \<or> has_span cs)"

text \<open>
  Every \<open><\<close> of a text begins a strong tag, opening or closing.
\<close>

fun only_tags :: "ustr \<Rightarrow> bool" where
  "only_tags [] = True"
| "only_tags (c # cs) =
     ((c = 60 \<longrightarrow> prefix (of_ascii ''strong>'') cs \<or> prefix (of_ascii ''/strong>'') cs)
      \<and> only_tags cs)"

section \<open>Values received from the image service\<close>

text \<open>
  \<open>response.json()\<close> gives a Python object built from \<open>None\<close>, booleans, numbers,
  strings, lists and dictionaries with string keys. Numbers are kept as integers: the
  code only tests them for truth and never subscripts them with success. \<open>PNone\<close> is
  Python's \<open>None\<close>, also where \<open>get_image_for_query\<close> returns it.
\<close>

datatype pyval =
    PNone
  | PBool bool
  | PInt int
  | PStr ustr
  | PList "pyval list"
  | PDict "(ustr \<times> pyval) list"

datatype exn = RequestException | ValueError | KeyError | IndexError | TypeError

text \<open>The truth test of \<open>if v:\<close>.\<close>

fun truthy :: "pyval \<Rightarrow> bool" where
  "truthy PNone = False"
| "truthy (PBool b) = b"
| "truthy (PInt i) = (i \<noteq> 0)"
| "truthy (PStr s) = (s \<noteq> [])"
| "truthy (PList xs) = (xs \<noteq> [])"
| "truthy (PDict kvs) = (kvs \<noteq> [])"

text \<open>\<open>v['key']\<close> with a string key.\<close>

fun subscript :: "pyval \<Rightarrow> ustr \<Rightarrow> exn + pyval" where
  "subscript (PDict kvs) k = (case map_of kvs k of None \<Rightarrow> Inl KeyError | Some v \<Rightarrow> Inr v)"
| "subscript _ k = Inl TypeError"

text \<open>\<open>v[0]\<close>. A dictionary decoded from JSON has string keys only, so \<open>0\<close> is no key.\<close>

fun first_item :: "pyval \<Rightarrow> exn + pyval" where
  "first_item (PList []) = Inl IndexError"
| "first_item (PList (x # xs)) = Inr x"
| "first_item (PStr []) = Inl IndexError"
| "first_item (PStr (c # cs)) = Inr (PStr [c])"
| "first_item (PDict kvs) = Inl KeyError"
| "first_item _ = Inl TypeError"

section \<open>Configuration and collaborators\<close>

text \<open>
  The parameters of \<open>requests.get(unsplash_url, params=params)\<close>.
\<close>

record request =
  url :: ustr
  query :: ustr
  per_page :: nat
  client_id :: ustr
  orientation :: ustr

text \<open>
  What the call to the Groq client does inside the \<open>try\<close> block of \<open>ask_groq\<close>:
  an exception is raised (its text is kept, \<open>ask_groq\<close> prints it into its answer), or the
  result has no choices, or the first choice carries the text of the completion.
\<close>

datatype completion = Raised ustr | NoChoices | Content ustr

text \<open>
  The module's two keys and the outside world. The services are functions on a world
  state \<open>'w\<close> that they may change, so that calls are ordered and counted.
  \<open>requests_get\<close> stands for \<open>requests.get\<close>, \<open>raise_for_status\<close> and
  \<open>response.json()\<close>: a \<open>RequestException\<close>, another exception of the decoding, or the
  decoded object. \<open>str_lower\<close> is Python's \<open>str.lower\<close>, whose Unicode tables are not
  part of the program.
\<close>

record 'w env =
  GROQ_API_KEY :: ustr
  UNSPLASH_ACCESS_KEY :: ustr
  groq_create :: "ustr \<Rightarrow> 'w \<Rightarrow> completion \<times> 'w"
  requests_get :: "request \<Rightarrow> 'w \<Rightarrow> (exn + pyval) \<times> 'w"
  str_lower :: "ustr \<Rightarrow> ustr"

text \<open>
  Module start: \<open>KEY = os.getenv(...)\<close>, then \<open>if not KEY: KEY = "dummy_..."\<close>.
\<close>

definition load_key :: "ustr option \<Rightarrow> ustr \<Rightarrow> ustr" where
  "load_key getenv dummy =
     (case getenv of
        None \<Rightarrow> dummy
      | Some k \<Rightarrow> if k = [] then dummy else k)"

section \<open>ask_groq\<close>

definition not_configured_message :: ustr where
  "not_configured_message =
     of_ascii ''Sorry, Groq API key is not configured. Please set GROQ_API_KEY environment variable.''"

definition no_choices_message :: ustr where
  "no_choices_message =
     of_ascii ''Sorry, I couldn't cook anything with that input '' @ [128517]"

definition went_wrong_message :: "ustr \<Rightarrow> ustr" where
  "went_wrong_message e =
     of_ascii ''Something went wrong while talking to the recipe bot '' @ [128165]
       @ of_ascii '': '' @ e"

definition ask_groq :: "'w env \<Rightarrow> ustr \<Rightarrow> 'w \<Rightarrow> ustr \<times> 'w" where
  "ask_groq env prompt w =
     (if GROQ_API_KEY env = [] \<or> GROQ_API_KEY env = of_ascii ''dummy_groq_key''
      then (not_configured_message, w)
      else
        (case groq_create env prompt w of
           (Content response_content, w') \<Rightarrow> (bold_sub response_content, w')
         | (NoChoices, w') \<Rightarrow> (no_choices_message, w')
         | (Raised e, w') \<Rightarrow> (went_wrong_message e, w')))"

section \<open>get_image_for_query\<close>

text \<open>
  The body of the \<open>try\<close> block after \<open>data = response.json()\<close>: the test
  \<open>data and data['results']\<close>, then the path to the URL. \<open>Inl\<close> is an exception.
\<close>

definition pick_url :: "pyval \<Rightarrow> bool \<Rightarrow> exn + pyval" where
  "pick_url data is_ingredient =
     (if \<not> truthy data then Inr PNone
      else
        (case subscript data (of_ascii ''results'') of
           Inl e \<Rightarrow> Inl e
         | Inr results \<Rightarrow>
             if \<not> truthy results then Inr PNone
             else
               (case first_item results of
                  Inl e \<Rightarrow> Inl e
                | Inr photo \<Rightarrow>
                    (case subscript photo (of_ascii ''urls'') of
                       Inl e \<Rightarrow> Inl e
                     | Inr urls \<Rightarrow>
                         subscript urls
                           (if \<not> is_ingredient then of_ascii ''small''
                            else of_ascii ''thumb'')))))"

definition search_request :: "'w env \<Rightarrow> ustr \<Rightarrow> bool \<Rightarrow> request" where
  "search_request env q is_ingredient =
     \<lparr> url = of_ascii ''https://api.unsplash.com/search/photos'',
       query = (if \<not> is_ingredient then q @ of_ascii '' food recipe''
                else q @ of_ascii '' ingredient food''),
       per_page = 1,
       client_id = UNSPLASH_ACCESS_KEY env,
       orientation = (if \<not> is_ingredient then of_ascii ''landscape''
                      else of_ascii ''squarish'') \<rparr>"

definition get_image_for_query :: "'w env \<Rightarrow> ustr \<Rightarrow> bool \<Rightarrow> 'w \<Rightarrow> pyval \<times> 'w" where
  "get_image_for_query env q is_ingredient w =
     (if UNSPLASH_ACCESS_KEY env = [] \<or> UNSPLASH_ACCESS_KEY env = of_ascii ''dummy_unsplash_key''
      then (PNone, w)
      else
        (case requests_get env (search_request env q is_ingredient) w of
           (Inl e, w') \<Rightarrow> (PNone, w')
         | (Inr data, w') \<Rightarrow>
             (case pick_url data is_ingredient of
                Inl e \<Rightarrow> (PNone, w')
              | Inr v \<Rightarrow> (v, w'))))"

section \<open>The route /suggest\<close>

record dish =
  name :: ustr
  image_url :: pyval

definition is_dish_line :: "ustr \<Rightarrow> bool" where
  "is_dish_line line = startswith (strip line) [[8226], [45], [42]]"

definition clean_line :: "ustr \<Rightarrow> ustr" where
  "clean_line line = strip (strip_set [8226, 45, 42, 32] (strong_sub line))"

text \<open>The two list comprehensions of \<open>suggest\<close>: \<open>dish_lines\<close> and \<open>dishes\<close>.\<close>

definition dishes_of :: "ustr \<Rightarrow> ustr list" where
  "dishes_of response_from_groq =
     (let raw_lines = split_nl response_from_groq;
          dish_lines = filter is_dish_line raw_lines
      in map clean_line dish_lines)"

text \<open>The \<open>for dish_name in dishes\<close> loop.\<close>

fun with_images :: "'w env \<Rightarrow> ustr list \<Rightarrow> 'w \<Rightarrow> dish list \<times> 'w" where
  "with_images env [] w = ([], w)"
| "with_images env (dish_name # dishes) w =
     (case get_image_for_query env dish_name False w of
        (img, w') \<Rightarrow>
          (case with_images env dishes w' of
             (ds, w'') \<Rightarrow> (\<lparr> name = dish_name, image_url = img \<rparr> # ds, w'')))"

definition suggest_prompt :: "ustr \<Rightarrow> ustr" where
  "suggest_prompt ingredients_str =
     of_ascii ''Suggest 5 dishes I can make using: '' @ ingredients_str
       @ of_ascii ''. Return only the names as a bullet list.''"

text \<open>
  \<open>suggest\<close>, up to the call of \<open>render_template\<close>: the form field (absent: the empty
  string) gives the list handed to the template.
\<close>

definition suggest :: "'w env \<Rightarrow> ustr option \<Rightarrow> 'w \<Rightarrow> dish list \<times> 'w" where
  "suggest env form_ingredients w =
     (let ingredients_str = (case form_ingredients of None \<Rightarrow> [] | Some s \<Rightarrow> s)
      in case ask_groq env (suggest_prompt ingredients_str) w of
           (response_from_groq, w') \<Rightarrow> with_images env (dishes_of response_from_groq) w')"

section \<open>The route /search_ingredients\<close>

record suggestion =
  ingredient :: ustr
  image_src :: pyval

definition all_possible_ingredients :: "ustr list" where
  "all_possible_ingredients = map of_ascii
     [''chicken'', ''rice'', ''tomato'', ''onion'', ''garlic'', ''cheese'', ''milk'', ''eggs'',
      ''flour'', ''sugar'', ''salt'', ''pepper'', ''butter'', ''oil'', ''potato'', ''carrot'',
      ''spinach'', ''broccoli'', ''beef'', ''pork'', ''fish'', ''shrimp'', ''pasta'', ''bread'',
      ''lemon'', ''lime'', ''ginger'', ''chilli'', ''cumin'', ''coriander'', ''paprika'',
      ''cream'', ''yogurt'', ''mushrooms'', ''bell pepper'', ''cucumber'', ''avocado'', ''paneer'', ''peas'',
      ''apple'', ''banana'', ''orange'', ''grape'', ''strawberry'', ''blueberry'', ''mango'', ''pineapple'',
      ''lettuce'', ''cabbage'', ''zucchini'', ''eggplant'', ''peas'', ''beans'', ''lentils'', ''quinoa'',
      ''oats'', ''honey'', ''maple syrup'', ''chocolate'', ''cocoa powder'', ''vanilla extract'',
      ''almonds'', ''walnuts'', ''cashews'', ''peanuts'', ''olives'', ''olive oil'', ''vinegar'',
      ''mustard'', ''ketchup'', ''mayonnaise'', ''soy sauce'', ''teriyaki sauce'', ''sriracha'',
      ''basil'', ''oregano'', ''thyme'', ''rosemary'', ''parsley'', ''dill'', ''mint'', ''cinnamon'',
      ''nutmeg'', ''cloves'', ''cardamom'', ''turmeric'', ''bay leaf'', ''coconut milk'', ''tofu'', ''tempeh'']"

definition placeholder :: pyval where
  "placeholder = PStr (of_ascii ''/static/placeholder_ingredient.png'')"

text \<open>The \<open>for ingredient_name in filtered_ingredients\<close> loop.\<close>

fun with_thumbs :: "'w env \<Rightarrow> ustr list \<Rightarrow> 'w \<Rightarrow> suggestion list \<times> 'w" where
  "with_thumbs env [] w = ([], w)"
| "with_thumbs env (ingredient_name # rest) w =
     (case get_image_for_query env ingredient_name True w of
        (img, w') \<Rightarrow>
          (case with_thumbs env rest w' of
             (ss, w'') \<Rightarrow>
               (\<lparr> ingredient = ingredient_name,
                  image_src = (if truthy img then img else placeholder) \<rparr> # ss, w'')))"

text \<open>
  \<open>search_ingredients\<close>, up to \<open>jsonify\<close>: the argument \<open>query\<close> of the request
  (absent: the empty string) gives the list of suggestions. \<open>x in y\<close> on strings is the
  substring test.
\<close>

definition search_ingredients :: "'w env \<Rightarrow> ustr option \<Rightarrow> 'w \<Rightarrow> suggestion list \<times> 'w" where
  "search_ingredients env arg w =
     (let q = strip (case arg of None \<Rightarrow> [] | Some s \<Rightarrow> s)
      in if q \<noteq> [] then
           with_thumbs env
             (filter (\<lambda>item. sublist (str_lower env q) (str_lower env item))
                all_possible_ingredients) w
         else ([], w))"

section \<open>The synthetic bulleted list\<close>

text \<open>
  No function of \<open>app.py\<close>: the list that the spec's idempotence property builds from a
  list of names, each name on a line of its own (\<open>'\n'.join\<close>), behind a bullet marker
  \<open>m\<close> and a space.
\<close>

fun join_nl :: "ustr list \<Rightarrow> ustr" where
  "join_nl [] = []"
| "join_nl [l] = l"
| "join_nl (l # ls) = l @ 10 # join_nl ls"

definition rebullet :: "nat \<Rightarrow> ustr list \<Rightarrow> ustr" where
  "rebullet m names = join_nl (map (\<lambda>d. m # 32 # d) names)"

section \<open>Collaborators for the examples\<close>

text \<open>
  The world of the examples is the list of the requests sent to the image service so far.
  \<open>ascii_lower\<close> lowers the ASCII letters, as \<open>str.lower\<close> does on ASCII text.
\<close>

definition ascii_lower :: "ustr \<Rightarrow> ustr" where
  "ascii_lower s = map (\<lambda>c. if 65 \<le> c \<and> c \<le> 90 then c + 32 else c) s"

definition example_response :: ustr where
  "example_response =
     of_ascii ''**Fried Rice**'' @ [10] @ of_ascii ''- **Fried Rice**'' @ [10]
       @ of_ascii ''- Tomato Soup'' @ [10] @ of_ascii ''* Garlic Bread'' @ [10]
       @ of_ascii ''Enjoy your meal!''"

text \<open>An answer of the image service with one photo.\<close>

definition one_photo :: "ustr \<Rightarrow> pyval" where
  "one_photo u =
     PDict [(of_ascii ''total'', PInt 1),
            (of_ascii ''results'',
               PList [PDict [(of_ascii ''id'', PStr (of_ascii ''p1'')),
                             (of_ascii ''urls'',
                                PDict [(of_ascii ''small'', PStr (of_ascii ''https://img/small/'' @ u)),
                                       (of_ascii ''thumb'', PStr (of_ascii ''https://img/thumb/'' @ u))])]])]"

text \<open>
  An image service that records each request, fails on the request for Tomato Soup, finds
  nothing for Garlic Bread and answers every other request with one photo.
\<close>

definition example_get :: "request \<Rightarrow> request list \<Rightarrow> (exn + pyval) \<times> request list" where
  "example_get r w =
     (if query r = of_ascii ''Tomato Soup food recipe'' then (Inl RequestException, w @ [r])
      else if query r = of_ascii ''Garlic Bread food recipe''
        then (Inr (PDict [(of_ascii ''total'', PInt 0), (of_ascii ''results'', PList [])]), w @ [r])
      else (Inr (one_photo (query r)), w @ [r]))"

text \<open>Both keys are set; the model answers with the response of the spec's example.\<close>

definition example_env :: "request list env" where
  "example_env =
     \<lparr> GROQ_API_KEY = load_key (Some (of_ascii ''gsk_key'')) (of_ascii ''dummy_groq_key''),
       UNSPLASH_ACCESS_KEY = load_key (Some (of_ascii ''unsplash_key'')) (of_ascii ''dummy_unsplash_key''),
       groq_create = (\<lambda>prompt w. (Content example_response, w)),
       requests_get = example_get,
       str_lower = ascii_lower \<rparr>"

text \<open>The same, with a model whose call raises an exception with the text \<open>e\<close>.\<close>

definition failing_env :: "ustr \<Rightarrow> request list env" where
  "failing_env e = example_env \<lparr> groq_create := (\<lambda>prompt w. (Raised e, w)) \<rparr>"

text \<open>Neither environment variable is set.\<close>

definition unset_env :: "request list env" where
  "unset_env =
     \<lparr> GROQ_API_KEY = load_key None (of_ascii ''dummy_groq_key''),
       UNSPLASH_ACCESS_KEY = load_key None (of_ascii ''dummy_unsplash_key''),
       groq_create = (\<lambda>prompt w. (Content example_response, w)),
       requests_get = example_get,
       str_lower = ascii_lower \<rparr>"



section \<open>Properties of the string operations\<close>

lemma last_dropWhile_nonempty:
  "dropWhile P xs \<noteq> [] \<Longrightarrow> last (dropWhile P xs) = last xs"
  by (induction xs) (auto split: if_splits)

lemma strip_chars_ends:
  "strip_chars P s = [] \<or> (\<not> P (hd (strip_chars P s)) \<and> \<not> P (last (strip_chars P s)))"
proof (cases "strip_chars P s = []")
  case True
  then show ?thesis by simp
next
  case False
  define t where "t = dropWhile P s"
  define u where "u = dropWhile P (rev t)"
  have res: "strip_chars P s = rev u" by (simp add: strip_chars_def t_def u_def)
  with False have u: "u \<noteq> []" by simp
  then have t: "t \<noteq> []" by (auto simp: u_def)
  have "\<not> P (hd u)" using u unfolding u_def by (rule hd_dropWhile)
  moreover have "last u = last (rev t)"
    using u unfolding u_def by (rule last_dropWhile_nonempty)
  then have "last u = hd t" using t by (simp add: last_rev)
  moreover have "\<not> P (hd t)" using t unfolding t_def by (rule hd_dropWhile)
  ultimately show ?thesis using u by (simp add: res hd_rev last_rev)
qed

lemma strip_chars_subset: "set (strip_chars P s) \<subseteq> set s"
  unfolding strip_chars_def by (auto dest!: set_dropWhileD)

lemma dropWhile_id: "xs = [] \<or> \<not> P (hd xs) \<Longrightarrow> dropWhile P xs = xs"
  by (cases xs) auto

lemma strip_chars_id:
  assumes "s = [] \<or> (\<not> P (hd s) \<and> \<not> P (last s))"
  shows "strip_chars P s = s"
proof -
  have 1: "dropWhile P s = s" using assms by (intro dropWhile_id) auto
  have 2: "dropWhile P (rev s) = rev s" using assms by (intro dropWhile_id) (auto simp: hd_rev)
  show ?thesis by (simp add: strip_chars_def 1 2)
qed

lemma strip_chars_split:
  "\<exists>pre post. s = pre @ strip_chars P s @ post \<and> list_all P pre \<and> list_all P post"
proof -
  define t where "t = dropWhile P s"
  have s: "s = takeWhile P s @ t" by (simp add: t_def)
  have "rev (takeWhile P (rev t) @ dropWhile P (rev t)) = rev (rev t)"
    by (simp only: takeWhile_dropWhile_id)
  then have t: "t = strip_chars P s @ rev (takeWhile P (rev t))"
    by (simp only: rev_append rev_rev_ident strip_chars_def t_def)
  have "list_all P (takeWhile P s)" "list_all P (rev (takeWhile P (rev t)))"
    by (auto simp: list_all_iff dest: set_takeWhileD)
  moreover have "s = takeWhile P s @ strip_chars P s @ rev (takeWhile P (rev t))"
    using s t by simp
  ultimately show ?thesis by blast
qed

lemma split_nl_nonempty: "split_nl s \<noteq> []"
  by (induction s) (auto split: list.splits)

lemma split_nl_no_newline: "l \<in> set (split_nl s) \<Longrightarrow> 10 \<notin> set l"
  by (induction s arbitrary: l) (auto split: if_splits list.splits)

lemmas text_defs = dishes_of_def of_ascii_def is_dish_line_def clean_line_def strip_def
  strip_set_def strip_chars_def startswith_def is_space_def

lemma split_nl_subset: "l \<in> set (split_nl s) \<Longrightarrow> set l \<subseteq> set s"
proof (induction s arbitrary: l)
  case Nil
  then show ?case by simp
next
  case (Cons a s)
  show ?case
  proof (cases "a = 10")
    case True
    with Cons.prems have "l = [] \<or> l \<in> set (split_nl s)" by simp
    with Cons.IH show ?thesis by auto
  next
    case False
    obtain l0 ls where sp: "split_nl s = l0 # ls"
      using split_nl_nonempty [of s] by (cases "split_nl s") auto
    with False Cons.prems have "l = a # l0 \<or> l \<in> set ls" by simp
    moreover have "set l0 \<subseteq> set s" using Cons.IH [of l0] sp by simp
    moreover have "l \<in> set ls \<Longrightarrow> set l \<subseteq> set s" using Cons.IH [of l] sp by simp
    ultimately show ?thesis by auto
  qed
qed

lemma strong_sub_subset: "set (strong_sub s) \<subseteq> set s"
proof (induction s rule: strong_sub.induct)
  case 1
  then show ?case by simp
next
  case (2 c cs)
  consider (open_tag) "prefix (of_ascii ''<strong>'') (c # cs)"
    | (close_tag) "\<not> prefix (of_ascii ''<strong>'') (c # cs)"
        "prefix (of_ascii ''</strong>'') (c # cs)"
    | (plain) "\<not> prefix (of_ascii ''<strong>'') (c # cs)"
        "\<not> prefix (of_ascii ''</strong>'') (c # cs)"
    by blast
  then show ?case
  proof cases
    case open_tag
    then have "set (strong_sub (c # cs)) \<subseteq> set (drop 7 cs)"
      using "2.IH"(1) by simp
    also have "\<dots> \<subseteq> set cs" by (rule set_drop_subset)
    finally show ?thesis by auto
  next
    case close_tag
    then have "set (strong_sub (c # cs)) \<subseteq> set (drop 8 cs)"
      using "2.IH"(2) by simp
    also have "\<dots> \<subseteq> set cs" by (rule set_drop_subset)
    finally show ?thesis by auto
  next
    case plain
    then show ?thesis using "2.IH"(3) by auto
  qed
qed

lemma startswith_bullets:
  "startswith s [[8226], [45], [42]] \<longleftrightarrow> s \<noteq> [] \<and> hd s \<in> {8226, 45, 42}"
  by (cases s) (auto simp: startswith_def)

section \<open>The dish list of /suggest\<close>

text \<open>
  C1 (as amended). \<open>suggest\<close> splits the normalized text at newlines and keeps exactly
  the lines whose first character, after trimming whitespace, is one of the bullets
  \<open>U+2022\<close>, \<open>-\<close>, \<open>*\<close>. Each kept line has its strong tags removed, then bullet
  characters and spaces stripped from both ends, then whitespace trimmed. Every kept line
  gives one name, an empty one included: nothing is discarded after the stripping. On the
  response of the spec's example, normalization and extraction give the three names
  Fried Rice, Tomato Soup, Garlic Bread.
\<close>

theorem dishes_of_lines:
  "dishes_of text =
     map (\<lambda>line. strip (strip_set [8226, 45, 42, 32] (strong_sub line)))
       (filter (\<lambda>line. strip line \<noteq> [] \<and> hd (strip line) \<in> {8226, 45, 42})
          (split_nl text))
   \<and> dishes_of (bold_sub (of_ascii ''**Fried Rice**'' @ [10] @ of_ascii ''- **Fried Rice**''
          @ [10] @ of_ascii ''- Tomato Soup'' @ [10] @ of_ascii ''* Garlic Bread'' @ [10]
          @ of_ascii ''Enjoy your meal!''))
       = [of_ascii ''Fried Rice'', of_ascii ''Tomato Soup'', of_ascii ''Garlic Bread'']"
proof
  show "dishes_of text =
     map (\<lambda>line. strip (strip_set [8226, 45, 42, 32] (strong_sub line)))
       (filter (\<lambda>line. strip line \<noteq> [] \<and> hd (strip line) \<in> {8226, 45, 42})
          (split_nl text))"
    unfolding dishes_of_def Let_def is_dish_line_def clean_line_def startswith_bullets
    by (rule refl)
next
  show "dishes_of (bold_sub (of_ascii ''**Fried Rice**'' @ [10] @ of_ascii ''- **Fried Rice**''
          @ [10] @ of_ascii ''- Tomato Soup'' @ [10] @ of_ascii ''* Garlic Bread'' @ [10]
          @ of_ascii ''Enjoy your meal!''))
       = [of_ascii ''Fried Rice'', of_ascii ''Tomato Soup'', of_ascii ''Garlic Bread'']"
    by (simp add: text_defs)
qed

text \<open>
  C1 as stated fails: the line \<open>"- "\<close> starts with a bullet, is empty after the
  stripping, and is kept as an empty name.
\<close>

theorem empty_name_kept: "dishes_of (bold_sub (of_ascii ''- '')) = [[]]"
  by (simp add: text_defs)

lemma clean_line_ends:
  "clean_line l = [] \<or> (\<not> is_space (hd (clean_line l)) \<and> \<not> is_space (last (clean_line l)))"
  unfolding clean_line_def strip_def by (rule strip_chars_ends)

lemma clean_line_subset: "set (clean_line l) \<subseteq> set l"
  unfolding clean_line_def strip_def strip_set_def
  using strip_chars_subset strong_sub_subset by blast

lemma clean_line_bullet_ends:
  assumes ws: "\<forall>c \<in> set l. is_space c \<longrightarrow> c = 32"
  shows "clean_line l = [] \<or>
         (hd (clean_line l) \<notin> {8226, 45, 42} \<and> last (clean_line l) \<notin> {8226, 45, 42})"
proof -
  define t where "t = strip_set [8226, 45, 42, 32] (strong_sub l)"
  have cl: "clean_line l = strip t" by (simp add: clean_line_def t_def)
  have sub: "set t \<subseteq> set l"
    unfolding t_def strip_set_def using strip_chars_subset strong_sub_subset by blast
  show ?thesis
  proof (cases "t = []")
    case True
    then show ?thesis by (simp add: cl strip_def strip_chars_def)
  next
    case False
    have ends: "hd t \<notin> set [8226, 45, 42, 32] \<and> last t \<notin> set [8226, 45, 42, 32]"
      using strip_chars_ends [of "\<lambda>c. c \<in> set [8226, 45, 42, 32]" "strong_sub l"] False
      unfolding t_def strip_set_def by blast
    have "hd t \<in> set l" "last t \<in> set l" using False sub by auto
    with ws ends have "\<not> is_space (hd t)" "\<not> is_space (last t)" by auto
    then have "strip t = t" unfolding strip_def by (intro strip_chars_id) simp
    with ends show ?thesis by (simp add: cl)
  qed
qed

section \<open>The normalization of emphasis markers\<close>

lemma pair_free_Cons:
  assumes "\<not> sublist [42, 42] ((c # p) @ [x])"
  shows "\<not> sublist [42, 42] (p @ [x])" and "\<not> prefix [42, 42] (c # p @ x # ys)"
proof -
  from assms show "\<not> sublist [42, 42] (p @ [x])" by (simp add: sublist_Cons_right)
  from assms have "\<not> prefix [42, 42] (c # p @ [x])" by (simp add: sublist_Cons_right)
  then show "\<not> prefix [42, 42] (c # p @ x # ys)" by (cases p) auto
qed

lemma bold_sub_plain_Cons:
  assumes "\<not> prefix [42, 42] (c # cs)"
  shows "bold_sub (c # cs) = c # bold_sub cs"
  by (subst bold_sub.simps) (simp only: assms if_False option.simps)

lemma bold_sub_skip:
  "\<not> sublist [42, 42] (pre @ [42]) \<Longrightarrow>
   bold_sub (pre @ 42 # ys) = pre @ bold_sub (42 # ys)"
proof (induction pre)
  case Nil
  then show ?case by simp
next
  case (Cons c p)
  from Cons.prems have 1: "\<not> sublist [42, 42] (p @ [42])"
    and 2: "\<not> prefix [42, 42] (c # p @ 42 # ys)"
    by (rule pair_free_Cons)+
  have "bold_sub (c # p @ 42 # ys) = c # bold_sub (p @ 42 # ys)"
    using 2 by (rule bold_sub_plain_Cons)
  with Cons.IH [OF 1] show ?case by simp
qed

lemma find_close_nearest:
  "10 \<notin> set content \<Longrightarrow> \<not> sublist [42, 42] (content @ [42]) \<Longrightarrow>
   find_close (content @ 42 # 42 # post) = Some (content, post)"
proof (induction content)
  case Nil
  then show ?case by simp
next
  case (Cons c cs)
  from Cons.prems(2) have 1: "\<not> sublist [42, 42] (cs @ [42])"
    and 2: "\<not> prefix [42, 42] (c # cs @ 42 # 42 # post)"
    by (rule pair_free_Cons)+
  from Cons.prems(1) have c: "c \<noteq> 10" and cs: "10 \<notin> set cs" by auto
  obtain b rest where br: "cs @ 42 # 42 # post = b # rest"
    by (cases cs) auto
  with 2 have "\<not> (c = 42 \<and> b = 42)" by auto
  then have "find_close (c # b # rest) =
      map_option (\<lambda>(content, rest'). (c # content, rest')) (find_close (b # rest))"
    using c by auto
  with Cons.IH [OF cs 1] br show ?case by simp
qed

lemma find_close_newline: "find_close (10 # tail) = None"
  by (cases tail) auto

lemma find_close_none:
  "\<not> sublist [42, 42] line \<Longrightarrow> find_close line = None"
proof (induction line rule: find_close.induct)
  case (1 a b rest)
  from "1.prems" have "\<not> (a = 42 \<and> b = 42)" "\<not> sublist [42, 42] (b # rest)"
    by (auto simp: sublist_Cons_right)
  with "1.IH" show ?case by simp
qed simp_all

lemma find_close_none_nl:
  "\<not> sublist [42, 42] line \<Longrightarrow> find_close (line @ 10 # tail) = None"
proof (induction line rule: find_close.induct)
  case (1 a b rest)
  from "1.prems" have "\<not> (a = 42 \<and> b = 42)" "\<not> sublist [42, 42] (b # rest)"
    by (auto simp: sublist_Cons_right)
  with "1.IH" show ?case by simp
qed (simp_all add: find_close_newline)

lemma bold_sub_star:
  assumes "\<not> prefix [42] cs \<or> find_close (tl cs) = None"
  shows "bold_sub (42 # cs) = 42 # bold_sub cs"
  using assms by (subst bold_sub.simps) auto

lemma pair_free_tl: "\<not> sublist [42, 42] line \<Longrightarrow> \<not> sublist [42, 42] (tl line)"
  by (cases line) (auto simp: sublist_Cons_right)

lemma bold_sub_line:
  assumes "\<not> sublist [42, 42] line"
  shows "bold_sub line = line"
    and "bold_sub (line @ 10 # tail) = line @ 10 # bold_sub tail"
  using assms
proof (induction line)
  case Nil
  { case 1 show ?case by simp
  next
    case 2
    have "\<not> prefix [42, 42] (10 # tail)" by simp
    then have "bold_sub (10 # tail) = 10 # bold_sub tail" by (rule bold_sub_plain_Cons)
    then show ?case by simp }
next
  case (Cons c l)
  { case 1
    then have a: "\<not> prefix [42, 42] (c # l)" and b: "\<not> sublist [42, 42] l"
      by (auto simp: sublist_Cons_right)
    from a have "bold_sub (c # l) = c # bold_sub l" by (rule bold_sub_plain_Cons)
    with Cons.IH(1) [OF b] show ?case by simp
  next
    case 2
    then have a: "\<not> prefix [42, 42] (c # l)" and b: "\<not> sublist [42, 42] l"
      by (auto simp: sublist_Cons_right)
    from a have "\<not> prefix [42, 42] (c # l @ 10 # tail)" by (cases l) auto
    then have "bold_sub (c # l @ 10 # tail) = c # bold_sub (l @ 10 # tail)"
      by (rule bold_sub_plain_Cons)
    with Cons.IH(2) [OF b] show ?case by simp }
qed

lemma bold_sub_unmatched:
  assumes pre: "\<not> sublist [42, 42] (pre @ [42])" and line: "\<not> sublist [42, 42] line"
  shows "bold_sub (pre @ [42, 42] @ line) = pre @ [42, 42] @ line"
    and "bold_sub (pre @ [42, 42] @ line @ 10 # tail) = pre @ [42, 42] @ line @ 10 # bold_sub tail"
proof -
  have tl: "\<not> sublist [42, 42] (tl line)" using line by (rule pair_free_tl)
  have "bold_sub (pre @ 42 # 42 # line) = pre @ bold_sub (42 # 42 # line)"
    using pre by (rule bold_sub_skip)
  also have "bold_sub (42 # 42 # line) = 42 # bold_sub (42 # line)"
    by (rule bold_sub_star) (simp add: find_close_none [OF line])
  also have "bold_sub (42 # line) = 42 # bold_sub line"
    by (rule bold_sub_star) (simp add: find_close_none [OF tl])
  also have "bold_sub line = line" using line by (rule bold_sub_line)
  finally show "bold_sub (pre @ [42, 42] @ line) = pre @ [42, 42] @ line" by simp
  have "bold_sub (pre @ 42 # 42 # line @ 10 # tail) = pre @ bold_sub (42 # 42 # line @ 10 # tail)"
    using pre by (rule bold_sub_skip)
  also have "bold_sub (42 # 42 # line @ 10 # tail) = 42 # bold_sub (42 # line @ 10 # tail)"
    by (rule bold_sub_star) (simp add: find_close_none_nl [OF line])
  also have "bold_sub (42 # line @ 10 # tail) = 42 # bold_sub (line @ 10 # tail)"
  proof (rule bold_sub_star, cases line)
    case Nil
    then show "\<not> prefix [42] (line @ 10 # tail) \<or> find_close (tl (line @ 10 # tail)) = None"
      by simp
  next
    case (Cons a l)
    then show "\<not> prefix [42] (line @ 10 # tail) \<or> find_close (tl (line @ 10 # tail)) = None"
      using find_close_none_nl [OF tl, of tail] by simp
  qed
  also have "bold_sub (line @ 10 # tail) = line @ 10 # bold_sub tail"
    using line by (rule bold_sub_line)
  finally show "bold_sub (pre @ [42, 42] @ line @ 10 # tail)
      = pre @ [42, 42] @ line @ 10 # bold_sub tail" by simp
qed

lemma bold_sub_span:
  assumes pre: "\<not> sublist [42, 42] (pre @ [42])"
    and nl: "10 \<notin> set content" and content: "\<not> sublist [42, 42] (content @ [42])"
  shows "bold_sub (pre @ [42, 42] @ content @ [42, 42] @ post)
     = pre @ of_ascii ''<strong>'' @ content @ of_ascii ''</strong>'' @ bold_sub post"
proof -
  have "bold_sub (pre @ 42 # 42 # content @ 42 # 42 # post)
      = pre @ bold_sub (42 # 42 # content @ 42 # 42 # post)"
    using pre by (rule bold_sub_skip)
  also have "bold_sub (42 # 42 # content @ 42 # 42 # post)
      = of_ascii ''<strong>'' @ content @ of_ascii ''</strong>'' @ bold_sub post"
    by (subst bold_sub.simps) (simp add: find_close_nearest [OF nl content])
  finally show ?thesis by simp
qed

text \<open>
  C2 (as amended). The substitution in \<open>ask_groq\<close> turns the empty text into the empty
  text. It converts spans from left to right: after a text \<open>pre\<close> in which no marker
  starts, \<open>**content**\<close> becomes \<open><strong>content</strong>\<close> when \<open>content\<close> holds no
  newline and is the shortest text before a closing marker (it may be empty; it holds no
  \<open>**\<close> and does not end with \<open>*\<close>), and the scan goes on with the rest. A marker with
  no closing marker before the end of its line is left as it is, and the scan goes on
  after the line; a text without markers is unchanged.
\<close>

theorem bold_sub_spans:
  "bold_sub [] = []
   \<and> (\<not> sublist [42, 42] (pre @ [42]) \<and> 10 \<notin> set content
        \<and> \<not> sublist [42, 42] (content @ [42]) \<longrightarrow>
      bold_sub (pre @ [42, 42] @ content @ [42, 42] @ post)
        = pre @ of_ascii ''<strong>'' @ content @ of_ascii ''</strong>'' @ bold_sub post)
   \<and> (\<not> sublist [42, 42] (pre @ [42]) \<and> \<not> sublist [42, 42] line \<longrightarrow>
      bold_sub (pre @ [42, 42] @ line) = pre @ [42, 42] @ line
      \<and> bold_sub (pre @ [42, 42] @ line @ 10 # tail)
          = pre @ [42, 42] @ line @ 10 # bold_sub tail)
   \<and> (\<not> sublist [42, 42] line \<longrightarrow> bold_sub line = line)"
  using bold_sub_span bold_sub_unmatched bold_sub_line(1) by simp

theorem bold_sub_spans_witness:
  "\<not> sublist [42, 42] (of_ascii ''Try '' @ [42])
   \<and> 10 \<notin> set (of_ascii ''Fried Rice'')
   \<and> \<not> sublist [42, 42] (of_ascii ''Fried Rice'' @ [42])
   \<and> bold_sub (of_ascii ''Try **Fried Rice** or **'')
       = of_ascii ''Try <strong>Fried Rice</strong> or **''
   \<and> \<not> sublist [42, 42] (of_ascii ''a*'')
   \<and> bold_sub (of_ascii ''Try **a*'' @ [10] @ of_ascii ''b**'')
       = of_ascii ''Try **a*'' @ [10] @ of_ascii ''b**''
   \<and> bold_sub (of_ascii ''a*'') = of_ascii ''a*''"
  using bold_sub_spans [of "of_ascii ''Try ''" "of_ascii ''Fried Rice''" "of_ascii '' or **''"
      "of_ascii ''a*''" "of_ascii ''b**''"]
  by (simp add: of_ascii_def sublist_code)

text \<open>
  C2 as stated fails: a span whose content holds a newline is not converted, since
  \<open>.\<close> in the pattern does not match a newline.
\<close>

theorem bold_sub_newline_counterexample:
  "bold_sub (of_ascii ''**a'' @ [10] @ of_ascii ''b**'') = of_ascii ''**a'' @ [10] @ of_ascii ''b**''"
  by (simp add: of_ascii_def)

lemma find_close_exists:
  "10 \<notin> set content \<Longrightarrow> find_close (content @ 42 # 42 # post) \<noteq> None"
proof (induction content)
  case Nil
  then show ?case by simp
next
  case (Cons c cs)
  obtain b rest where br: "cs @ 42 # 42 # post = b # rest" by (cases cs) auto
  from Cons have "find_close (b # rest) \<noteq> None" "c \<noteq> 10" by (auto simp: br)
  then have "find_close (c # b # rest) \<noteq> None" by auto
  then show ?case by (simp add: br)
qed

lemma has_span_append: "has_span ys \<Longrightarrow> has_span (pre @ ys)"
  by (induction pre) auto

lemma has_span_intro:
  assumes "10 \<notin> set content"
  shows "has_span (pre @ [42, 42] @ content @ [42, 42] @ post)"
proof -
  have "has_span (42 # 42 # content @ 42 # 42 # post)"
    using find_close_exists [OF assms, of post] by simp
  then show ?thesis using has_span_append by simp
qed

lemma find_close_head:
  "find_close xs = Some (x # content, rest) \<Longrightarrow> \<exists>xs'. xs = x # xs'"
  by (induction xs rule: find_close.induct) (auto split: if_splits)

lemma has_span_content:
  "find_close xs = Some (content, rest) \<Longrightarrow> has_span (content @ 60 # ys) = has_span ys"
proof (induction xs arbitrary: content rule: find_close.induct)
  case (1 a b r)
  show ?case
  proof (cases "a = 42 \<and> b = 42")
    case True
    with "1.prems" show ?thesis by simp
  next
    case False
    with "1.prems" obtain c' where a: "a \<noteq> 10"
      and fc: "find_close (b # r) = Some (c', rest)" and content: "content = a # c'"
      by (auto split: if_splits)
    from False a "1.IH" [OF _ _ fc] have ih: "has_span (c' @ 60 # ys) = has_span ys"
      by blast
    have "\<not> prefix [42, 42] (a # c' @ 60 # ys)"
    proof (cases c')
      case Nil
      then show ?thesis by simp
    next
      case (Cons x c'')
      with fc have "x = b" using find_close_head by fastforce
      with False Cons show ?thesis by auto
    qed
    then have "has_span (a # c' @ 60 # ys) = has_span (c' @ 60 # ys)"
      by (simp del: Cons_prefix_Cons)
    with ih content show ?thesis by simp
  qed
qed simp_all

lemma bold_sub_head_star:
  assumes "bold_sub cs = 42 # r"
  obtains cs' where "cs = 42 # cs'" and "r = bold_sub cs'"
    and "\<not> prefix [42] cs' \<or> find_close (tl cs') = None"
proof (cases cs)
  case Nil
  with assms show ?thesis by simp
next
  case (Cons c cs')
  show ?thesis
  proof (cases "if prefix [42, 42] (c # cs') then find_close (tl cs') else None")
    case None
    then have "bold_sub (c # cs') = c # bold_sub cs'"
      by (subst bold_sub.simps) (simp only: option.simps)
    with assms Cons have "c = 42" "r = bold_sub cs'" by auto
    moreover from None \<open>c = 42\<close>
    have "\<not> prefix [42] cs' \<or> find_close (tl cs') = None"
      by (auto split: if_splits)
    ultimately show ?thesis using that Cons by blast
  next
    case (Some m)
    obtain content rest where m: "m = (content, rest)" by (cases m)
    from Some have "bold_sub (c # cs') =
        of_ascii ''<strong>'' @ content @ of_ascii ''</strong>'' @ bold_sub rest"
      unfolding m by (subst bold_sub.simps) (simp only: option.simps prod.case)
    with assms Cons show ?thesis by (simp add: of_ascii_def)
  qed
qed

lemma find_close_bold_sub:
  "find_close xs = None \<Longrightarrow> find_close (bold_sub xs) = None"
proof (induction xs)
  case Nil
  then show ?case by simp
next
  case (Cons c cs)
  from Cons.prems have np: "\<not> prefix [42, 42] (c # cs)"
    by (cases cs) (auto split: if_splits)
  then have bs: "bold_sub (c # cs) = c # bold_sub cs" by (rule bold_sub_plain_Cons)
  show ?case
  proof (cases "bold_sub cs")
    case Nil
    with bs show ?thesis by simp
  next
    case (Cons b r)
    then obtain b' r' where cs: "cs = b' # r'" by (cases cs) auto
    have "\<not> (c = 42 \<and> b = 42)"
    proof
      assume cb: "c = 42 \<and> b = 42"
      with Cons obtain cs' where "cs = 42 # cs'"
        using bold_sub_head_star [of cs r] by blast
      with cb np show False by simp
    qed
    moreover
    { assume "c \<noteq> 10"
      with Cons.prems np cs have "find_close cs = None" by (auto split: if_splits)
      then have "find_close (b # r) = None" using Cons.IH Cons by simp }
    ultimately show ?thesis unfolding bs Cons by auto
  qed
qed

lemma no_span_bold_sub: "\<not> has_span (bold_sub xs)"
proof (induction xs rule: bold_sub.induct)
  case 1
  then show ?case by simp
next
  case (2 c cs)
  show ?case
  proof (cases "if prefix [42, 42] (c # cs) then find_close (tl cs) else None")
    case None
    then have bs: "bold_sub (c # cs) = c # bold_sub cs"
      by (subst bold_sub.simps) (simp only: option.simps)
    have ih: "\<not> has_span (bold_sub cs)" using None by (rule "2.IH"(1))
    have "\<not> (prefix [42, 42] (c # bold_sub cs) \<and> find_close (tl (bold_sub cs)) \<noteq> None)"
    proof
      assume a: "prefix [42, 42] (c # bold_sub cs) \<and> find_close (tl (bold_sub cs)) \<noteq> None"
      then obtain r where c: "c = 42" and r: "bold_sub cs = 42 # r"
        by (cases "bold_sub cs") auto
      from r obtain cs' where cs: "cs = 42 # cs'" and r': "r = bold_sub cs'"
        by (rule bold_sub_head_star)
      from None c cs have "find_close cs' = None" by simp
      then have "find_close (bold_sub cs') = None" by (rule find_close_bold_sub)
      with a r r' show False by simp
    qed
    with ih show ?thesis unfolding bs by (simp del: Cons_prefix_Cons)
  next
    case (Some m)
    obtain content rest where m: "m = (content, rest)" by (cases m)
    from Some have bs: "bold_sub (c # cs) =
        of_ascii ''<strong>'' @ content @ of_ascii ''</strong>'' @ bold_sub rest"
      unfolding m by (subst bold_sub.simps) (simp only: option.simps prod.case)
    from Some m have fc: "find_close (tl cs) = Some (content, rest)"
      by (simp split: if_splits)
    have ih: "\<not> has_span (bold_sub rest)" using Some m [symmetric] by (rule "2.IH"(2))
    have "has_span (content @ 60 # of_ascii ''/strong>'' @ bold_sub rest)
        = has_span (of_ascii ''/strong>'' @ bold_sub rest)"
      using fc by (rule has_span_content)
    also have "\<dots> = has_span (bold_sub rest)" by (simp add: of_ascii_def)
    finally have "has_span (of_ascii ''<strong>'' @ content @ of_ascii ''</strong>'' @ bold_sub rest)
        = has_span (bold_sub rest)"
      by (simp add: of_ascii_def)
    with ih show ?thesis unfolding bs by simp
  qed
qed

text \<open>
  C3 (as amended). For every raw response, the normalized text holds no span that could
  still be converted: no \<open>**\<close> followed, with no newline between, by another \<open>**\<close>.
  A marker that has no partner on its line remains in the output.
\<close>

theorem bold_sub_no_span_left:
  "\<not> (\<exists>pre content post.
        bold_sub text = pre @ [42, 42] @ content @ [42, 42] @ post \<and> 10 \<notin> set content)"
proof
  assume "\<exists>pre content post.
        bold_sub text = pre @ [42, 42] @ content @ [42, 42] @ post \<and> 10 \<notin> set content"
  then obtain pre content post
    where "bold_sub text = pre @ [42, 42] @ content @ [42, 42] @ post" "10 \<notin> set content"
    by blast
  then have "has_span (bold_sub text)" using has_span_intro by simp
  then show False using no_span_bold_sub by simp
qed

text \<open>
  C3 as stated fails: a lone marker is returned unchanged, so the output holds \<open>**\<close>.
\<close>

theorem lone_marker_kept:
  "bold_sub (of_ascii ''**'') = of_ascii ''**''
   \<and> sublist [42, 42] (bold_sub (of_ascii ''Use ** for bold''))"
  by (simp add: of_ascii_def sublist_code)

section \<open>The pipeline of /suggest\<close>

lemmas env_defs = example_env_def failing_env_def unset_env_def example_get_def load_key_def
  one_photo_def example_response_def ascii_lower_def
lemmas route_defs = suggest_def ask_groq_def get_image_for_query_def search_request_def
  pick_url_def suggest_prompt_def search_ingredients_def not_configured_message_def
  no_choices_message_def went_wrong_message_def placeholder_def

lemma with_images_names: "map name (fst (with_images env ds w)) = ds"
proof (induction ds arbitrary: w)
  case Nil
  then show ?case by simp
next
  case (Cons d ds)
  obtain img w' where g: "get_image_for_query env d False w = (img, w')"
    by (cases "get_image_for_query env d False w")
  obtain rs w'' where r: "with_images env ds w' = (rs, w'')"
    by (cases "with_images env ds w'")
  have "map name rs = ds" using Cons.IH [of w'] r by simp
  then show ?case using g r by simp
qed



lemma dishes_of_no_choices: "dishes_of no_choices_message = []"
  by (simp add: no_choices_message_def text_defs)






lemma suggest_unfold:
  "suggest env form w =
     with_images env
       (dishes_of (fst (ask_groq env (suggest_prompt (case form of None \<Rightarrow> [] | Some s \<Rightarrow> s)) w)))
       (snd (ask_groq env (suggest_prompt (case form of None \<Rightarrow> [] | Some s \<Rightarrow> s)) w))"
  by (simp add: suggest_def split: prod.splits)




section \<open>The autocomplete of /search_ingredients\<close>

lemma strip_chars_empty_iff: "strip_chars P s = [] \<longleftrightarrow> (\<forall>c \<in> set s. P c)"
proof
  assume "\<forall>c \<in> set s. P c"
  then show "strip_chars P s = []"
    by (auto simp: strip_chars_def dest: set_dropWhileD)
next
  assume e: "strip_chars P s = []"
  show "\<forall>c \<in> set s. P c"
  proof (rule ccontr)
    assume "\<not> (\<forall>c \<in> set s. P c)"
    then have t: "dropWhile P s \<noteq> []" by (simp add: dropWhile_eq_Nil_conv)
    then have "\<not> P (hd (dropWhile P s))" by (rule hd_dropWhile)
    moreover have "hd (dropWhile P s) \<in> set (rev (dropWhile P s))" using t by simp
    ultimately have "dropWhile P (rev (dropWhile P s)) \<noteq> []"
      unfolding dropWhile_eq_Nil_conv by blast
    with e show False by (simp add: strip_chars_def)
  qed
qed

lemma with_thumbs_names: "map ingredient (fst (with_thumbs env xs w)) = xs"
proof (induction xs arbitrary: w)
  case Nil
  then show ?case by simp
next
  case (Cons x xs)
  obtain img w' where g: "get_image_for_query env x True w = (img, w')"
    by (cases "get_image_for_query env x True w")
  obtain rs w'' where r: "with_thumbs env xs w' = (rs, w'')"
    by (cases "with_thumbs env xs w'")
  have "map ingredient rs = xs" using Cons.IH [of w'] r by simp
  then show ?case using g r by simp
qed

lemma truthy_placeholder: "truthy placeholder"
  by (simp add: placeholder_def of_ascii_def)

lemma with_thumbs_images:
  "s \<in> set (fst (with_thumbs env xs w)) \<Longrightarrow>
   truthy (image_src s) \<and>
   (\<exists>wi. image_src s = (if truthy (fst (get_image_for_query env (ingredient s) True wi))
                     then fst (get_image_for_query env (ingredient s) True wi)
                     else placeholder))"
proof (induction xs arbitrary: w)
  case Nil
  then show ?case by simp
next
  case (Cons x xs)
  obtain img w' where g: "get_image_for_query env x True w = (img, w')"
    by (cases "get_image_for_query env x True w")
  obtain rs w'' where r: "with_thumbs env xs w' = (rs, w'')"
    by (cases "with_thumbs env xs w'")
  from Cons.prems g r
  consider (head) "s = \<lparr> ingredient = x, image_src = (if truthy img then img else placeholder) \<rparr>"
    | (rest) "s \<in> set rs" by auto
  then show ?case
  proof cases
    case head
    have "image_src s = (if truthy (fst (get_image_for_query env (ingredient s) True w))
                     then fst (get_image_for_query env (ingredient s) True w)
                     else placeholder)"
      using head g by simp
    moreover have "truthy (image_src s)" using head truthy_placeholder by simp
    ultimately show ?thesis by blast
  next
    case rest
    then show ?thesis using Cons.IH [of w'] r by simp
  qed
qed

lemma with_thumbs_no_key:
  "UNSPLASH_ACCESS_KEY env = [] \<or> UNSPLASH_ACCESS_KEY env = of_ascii ''dummy_unsplash_key'' \<Longrightarrow>
   with_thumbs env xs w = (map (\<lambda>x. \<lparr> ingredient = x, image_src = placeholder \<rparr>) xs, w)"
  by (induction xs) (auto simp: get_image_for_query_def)

text \<open>
  C7 (as amended). Let \<open>q\<close> be the query with the whitespace at its two ends removed. If
  \<open>q\<close> is empty the result is empty; otherwise the names returned are exactly the entries
  of the vocabulary, in its order, in which the lowered \<open>q\<close> is a substring of the lowered
  entry. Every returned image is populated: the looked-up value when that is true in
  Python's sense, the fixed placeholder path otherwise (always the placeholder when the
  image key is missing). The empty and the absent query give the empty result with no
  lookup.
\<close>

theorem search_ingredients_filter:
  "map ingredient (fst (search_ingredients env arg w)) =
     (let q = strip (case arg of None \<Rightarrow> [] | Some s \<Rightarrow> s)
      in if q = [] then []
         else filter (\<lambda>item. sublist (str_lower env q) (str_lower env item))
                all_possible_ingredients)
   \<and> subseq (map ingredient (fst (search_ingredients env arg w))) all_possible_ingredients
   \<and> (\<forall>s \<in> set (fst (search_ingredients env arg w)).
        truthy (image_src s) \<and>
        (\<exists>wi. image_src s = (if truthy (fst (get_image_for_query env (ingredient s) True wi))
                          then fst (get_image_for_query env (ingredient s) True wi)
                          else placeholder)))
   \<and> (UNSPLASH_ACCESS_KEY env = [] \<or> UNSPLASH_ACCESS_KEY env = of_ascii ''dummy_unsplash_key'' \<longrightarrow>
        (\<forall>s \<in> set (fst (search_ingredients env arg w)). image_src s = placeholder))
   \<and> search_ingredients env (Some []) w = ([], w)
   \<and> search_ingredients env None w = ([], w)"
proof (intro conjI impI)
  show names: "map ingredient (fst (search_ingredients env arg w)) =
     (let q = strip (case arg of None \<Rightarrow> [] | Some s \<Rightarrow> s)
      in if q = [] then []
         else filter (\<lambda>item. sublist (str_lower env q) (str_lower env item))
                all_possible_ingredients)"
    by (simp add: search_ingredients_def Let_def with_thumbs_names)
  show "subseq (map ingredient (fst (search_ingredients env arg w))) all_possible_ingredients"
    unfolding names by (simp add: Let_def)
next
  show "\<forall>s \<in> set (fst (search_ingredients env arg w)).
        truthy (image_src s) \<and>
        (\<exists>wi. image_src s = (if truthy (fst (get_image_for_query env (ingredient s) True wi))
                          then fst (get_image_for_query env (ingredient s) True wi)
                          else placeholder))"
  proof
    fix s assume "s \<in> set (fst (search_ingredients env arg w))"
    then obtain xs where "s \<in> set (fst (with_thumbs env xs w))"
      by (auto simp: search_ingredients_def Let_def split: if_splits)
    then show "truthy (image_src s) \<and>
        (\<exists>wi. image_src s = (if truthy (fst (get_image_for_query env (ingredient s) True wi))
                          then fst (get_image_for_query env (ingredient s) True wi)
                          else placeholder))"
      by (rule with_thumbs_images)
  qed
next
  assume "UNSPLASH_ACCESS_KEY env = [] \<or> UNSPLASH_ACCESS_KEY env = of_ascii ''dummy_unsplash_key''"
  then show "\<forall>s \<in> set (fst (search_ingredients env arg w)). image_src s = placeholder"
    by (auto simp: search_ingredients_def Let_def with_thumbs_no_key split: if_splits)
next
  show "search_ingredients env (Some []) w = ([], w)"
    by (simp add: search_ingredients_def strip_def strip_chars_def)
  show "search_ingredients env None w = ([], w)"
    by (simp add: search_ingredients_def strip_def strip_chars_def)
qed

lemmas vocabulary = all_possible_ingredients_def

theorem search_ingredients_filter_witness:
  "fst (search_ingredients example_env (Some (of_ascii ''PEA'')) []) =
     [\<lparr> ingredient = of_ascii ''peas'',
         image_src = PStr (of_ascii ''https://img/thumb/peas ingredient food'') \<rparr>,
      \<lparr> ingredient = of_ascii ''peas'',
         image_src = PStr (of_ascii ''https://img/thumb/peas ingredient food'') \<rparr>,
      \<lparr> ingredient = of_ascii ''peanuts'',
         image_src = PStr (of_ascii ''https://img/thumb/peanuts ingredient food'') \<rparr>]
   \<and> UNSPLASH_ACCESS_KEY unset_env = of_ascii ''dummy_unsplash_key''
   \<and> fst (search_ingredients unset_env (Some (of_ascii ''tofu'')) []) =
     [\<lparr> ingredient = of_ascii ''tofu'', image_src = placeholder \<rparr>]"
  using search_ingredients_filter [of example_env "Some (of_ascii ''PEA'')" "[]"]
    search_ingredients_filter [of unset_env "Some (of_ascii ''tofu'')" "[]"]
  by (simp add: env_defs route_defs text_defs vocabulary sublist_code(3))

text \<open>
  C7 as stated fails for a query with whitespace at an end: the query of one space is a
  substring of \<open>bell pepper\<close> and returns nothing, and the query \<open>" tofu"\<close> is no substring
  of \<open>tofu\<close> and returns it.
\<close>

theorem search_ingredients_counterexample:
  "fst (search_ingredients example_env (Some [32]) []) = []
   \<and> sublist (ascii_lower [32]) (ascii_lower (of_ascii ''bell pepper''))
   \<and> of_ascii ''bell pepper'' \<in> set all_possible_ingredients
   \<and> map ingredient (fst (search_ingredients example_env (Some (of_ascii '' tofu'')) []))
       = [of_ascii ''tofu'']
   \<and> \<not> sublist (ascii_lower (of_ascii '' tofu'')) (ascii_lower (of_ascii ''tofu''))"
  by (simp add: env_defs route_defs text_defs vocabulary sublist_code(3))

text \<open>
  C10. The query is trimmed before the emptiness test and before the match. A query of
  whitespace only gives the empty result and leaves the world as it was: no lookup is
  made. Any other query splits into whitespace, a non-empty trimmed part that neither
  begins nor ends with whitespace, and whitespace; the names returned are the entries in
  which the lowered trimmed part is a substring of the lowered entry.
\<close>

theorem search_ingredients_trims:
  "((\<forall>c \<in> set q. is_space c) \<longrightarrow> search_ingredients env (Some q) w = ([], w))
   \<and> (\<not> (\<forall>c \<in> set q. is_space c) \<longrightarrow>
        strip q \<noteq> []
        \<and> (\<exists>pre post. q = pre @ strip q @ post \<and> list_all is_space pre \<and> list_all is_space post)
        \<and> \<not> is_space (hd (strip q)) \<and> \<not> is_space (last (strip q))
        \<and> map ingredient (fst (search_ingredients env (Some q) w))
            = filter (\<lambda>item. sublist (str_lower env (strip q)) (str_lower env item))
                all_possible_ingredients)"
proof (intro conjI impI)
  assume "\<forall>c \<in> set q. is_space c"
  then have "strip q = []" unfolding strip_def strip_chars_empty_iff .
  then show "search_ingredients env (Some q) w = ([], w)"
    by (simp add: search_ingredients_def)
next
  assume "\<not> (\<forall>c \<in> set q. is_space c)"
  then show ne: "strip q \<noteq> []" unfolding strip_def strip_chars_empty_iff .
  show "\<exists>pre post. q = pre @ strip q @ post \<and> list_all is_space pre \<and> list_all is_space post"
    unfolding strip_def by (rule strip_chars_split)
  from ne strip_chars_ends [of is_space q]
  show "\<not> is_space (hd (strip q))" "\<not> is_space (last (strip q))"
    by (auto simp: strip_def)
  from ne show "map ingredient (fst (search_ingredients env (Some q) w))
            = filter (\<lambda>item. sublist (str_lower env (strip q)) (str_lower env item))
                all_possible_ingredients"
    by (simp add: search_ingredients_def with_thumbs_names)
qed

theorem search_ingredients_trims_witness:
  "search_ingredients example_env (Some [32, 9, 32]) [] = ([], [])
   \<and> strip (of_ascii '' Tofu  '') = of_ascii ''Tofu''
   \<and> map ingredient (fst (search_ingredients example_env (Some (of_ascii '' Tofu  '')) []))
       = [of_ascii ''tofu'']
   \<and> map query (snd (search_ingredients example_env (Some (of_ascii '' Tofu  '')) []))
       = [of_ascii ''tofu ingredient food'']"
  using search_ingredients_trims [of "[32, 9, 32]" example_env "[]"]
    search_ingredients_trims [of "of_ascii '' Tofu  ''" example_env "[]"]
  by (simp add: env_defs route_defs text_defs vocabulary sublist_code(3))

section \<open>Extracting again from the extracted names\<close>

lemma split_nl_plain: "10 \<notin> set l \<Longrightarrow> split_nl l = [l]"
  by (induction l) auto

lemma split_nl_append_nl: "10 \<notin> set l \<Longrightarrow> split_nl (l @ 10 # rest) = l # split_nl rest"
  by (induction l) auto

lemma split_nl_join_nl:
  "ls \<noteq> [] \<Longrightarrow> \<forall>l \<in> set ls. 10 \<notin> set l \<Longrightarrow> split_nl (join_nl ls) = ls"
proof (induction ls rule: join_nl.induct)
  case 1
  then show ?case by simp
next
  case (2 l)
  then show ?case by (simp add: split_nl_plain)
next
  case (3 l v va)
  then show ?case by (simp add: split_nl_append_nl)
qed

lemma strip_chars_Cons_keep:
  "\<not> P x \<Longrightarrow> strip_chars P (x # xs) = x # rev (dropWhile P (rev xs))"
  by (simp add: strip_chars_def dropWhile_append3)

lemma strip_chars_Cons_drop: "P x \<Longrightarrow> strip_chars P (x # xs) = strip_chars P xs"
  by (simp add: strip_chars_def)

lemma is_dish_line_marker:
  assumes "m \<in> {8226, 45, 42}"
  shows "is_dish_line (m # xs)"
proof -
  from assms have "\<not> is_space m" by (auto simp: is_space_def)
  then have "strip (m # xs) = m # rev (dropWhile is_space (rev xs))"
    unfolding strip_def by (rule strip_chars_Cons_keep)
  with assms show ?thesis by (auto simp: is_dish_line_def startswith_def)
qed

lemma strong_sub_plain_Cons: "c \<noteq> 60 \<Longrightarrow> strong_sub (c # cs) = c # strong_sub cs"
  by (simp add: of_ascii_def)

lemma clean_line_marker:
  assumes m: "m \<in> {8226, 45, 42}"
    and tags: "strong_sub d = d"
    and ends: "d = [] \<or> (hd d \<notin> {8226, 45, 42} \<and> last d \<notin> {8226, 45, 42}
                 \<and> \<not> is_space (hd d) \<and> \<not> is_space (last d))"
  shows "clean_line (m # 32 # d) = d"
proof -
  from m have "m \<noteq> 60" by auto
  then have "strong_sub (m # 32 # d) = m # strong_sub (32 # d)"
    by (rule strong_sub_plain_Cons)
  also have "strong_sub (32 # d) = 32 # strong_sub d"
    by (rule strong_sub_plain_Cons) simp
  finally have "strong_sub (m # 32 # d) = m # 32 # d"
    by (simp only: tags)
  moreover have "strip_set [8226, 45, 42, 32] (m # 32 # d) = strip_set [8226, 45, 42, 32] d"
    using m unfolding strip_set_def by (auto simp: strip_chars_Cons_drop)
  moreover have "strip_set [8226, 45, 42, 32] d = d"
    unfolding strip_set_def
  proof (rule strip_chars_id)
    from ends show "d = [] \<or> (hd d \<notin> set [8226, 45, 42, 32] \<and> last d \<notin> set [8226, 45, 42, 32])"
      by (auto simp: is_space_def)
  qed
  moreover have "strip d = d" unfolding strip_def using ends by (intro strip_chars_id) auto
  ultimately show ?thesis by (simp add: clean_line_def)
qed

lemma dishes_of_empty: "dishes_of [] = []"
  by (simp add: text_defs)

lemma dishes_of_rebullet:
  assumes m: "m \<in> {8226, 45, 42}"
    and ds: "\<forall>d \<in> set ds. 10 \<notin> set d \<and> strong_sub d = d \<and>
        (d = [] \<or> (hd d \<notin> {8226, 45, 42} \<and> last d \<notin> {8226, 45, 42}
                 \<and> \<not> is_space (hd d) \<and> \<not> is_space (last d)))"
  shows "dishes_of (rebullet m ds) = ds"
proof (cases "ds = []")
  case True
  then show ?thesis by (simp add: rebullet_def dishes_of_empty)
next
  case False
  let ?f = "\<lambda>d. m # 32 # d"
  from m have "m \<noteq> 10" by auto
  with ds have "\<forall>l \<in> set (map ?f ds). 10 \<notin> set l" by auto
  with False have sp: "split_nl (rebullet m ds) = map ?f ds"
    unfolding rebullet_def by (intro split_nl_join_nl) auto
  have keep: "filter is_dish_line (map ?f ds) = map ?f ds"
    using is_dish_line_marker [OF m] by (simp add: filter_map o_def)
  have "map clean_line (map ?f ds) = map (\<lambda>d. d) ds"
    unfolding map_map o_def
  proof (rule map_cong [OF refl])
    fix d assume "d \<in> set ds"
    with ds show "clean_line (m # 32 # d) = d" by (intro clean_line_marker [OF m]) auto
  qed
  then show ?thesis by (simp add: dishes_of_def sp keep)
qed

text \<open>
  C9 (as amended). Take the names extracted from any text. If none of them holds a
  strong tag (removing tags leaves it unchanged) and none begins or ends with a bullet
  character, then writing each name behind a bullet marker and a space, one per line,
  and extracting again gives the same list of names.
\<close>

theorem rebullet_fixpoint:
  "m \<in> {8226, 45, 42} \<Longrightarrow>
   \<forall>d \<in> set (dishes_of text).
      strong_sub d = d \<and> (d = [] \<or> (hd d \<notin> {8226, 45, 42} \<and> last d \<notin> {8226, 45, 42})) \<Longrightarrow>
   dishes_of (rebullet m (dishes_of text)) = dishes_of text"
proof (rule dishes_of_rebullet)
  assume "m \<in> {8226, 45, 42}" then show "m \<in> {8226, 45, 42}" .
next
  assume h: "\<forall>d \<in> set (dishes_of text).
      strong_sub d = d \<and> (d = [] \<or> (hd d \<notin> {8226, 45, 42} \<and> last d \<notin> {8226, 45, 42}))"
  show "\<forall>d \<in> set (dishes_of text). 10 \<notin> set d \<and> strong_sub d = d \<and>
        (d = [] \<or> (hd d \<notin> {8226, 45, 42} \<and> last d \<notin> {8226, 45, 42}
                 \<and> \<not> is_space (hd d) \<and> \<not> is_space (last d)))"
  proof
    fix d assume d: "d \<in> set (dishes_of text)"
    then obtain l where l: "l \<in> set (split_nl text)" and dl: "d = clean_line l"
      by (auto simp: dishes_of_def)
    from l have "10 \<notin> set l" by (rule split_nl_no_newline)
    then have "10 \<notin> set d" using clean_line_subset [of l] dl by auto
    moreover have "d = [] \<or> (\<not> is_space (hd d) \<and> \<not> is_space (last d))"
      unfolding dl by (rule clean_line_ends)
    ultimately show "10 \<notin> set d \<and> strong_sub d = d \<and>
        (d = [] \<or> (hd d \<notin> {8226, 45, 42} \<and> last d \<notin> {8226, 45, 42}
                 \<and> \<not> is_space (hd d) \<and> \<not> is_space (last d)))"
      using h d by blast
  qed
qed

theorem rebullet_fixpoint_witness:
  "dishes_of (bold_sub example_response)
     = [of_ascii ''Fried Rice'', of_ascii ''Tomato Soup'', of_ascii ''Garlic Bread'']
   \<and> strong_sub (of_ascii ''Fried Rice'') = of_ascii ''Fried Rice''
   \<and> rebullet 42 (dishes_of (bold_sub example_response))
     = of_ascii ''* Fried Rice'' @ [10] @ of_ascii ''* Tomato Soup'' @ [10] @ of_ascii ''* Garlic Bread''
   \<and> dishes_of (rebullet 42 (dishes_of (bold_sub example_response)))
     = [of_ascii ''Fried Rice'', of_ascii ''Tomato Soup'', of_ascii ''Garlic Bread'']"
  using rebullet_fixpoint [of 42 "bold_sub example_response"]
  by (simp add: example_response_def rebullet_def text_defs)

text \<open>
  C9 as stated fails: with a carriage return at the end of the line, the name keeps the
  hyphen at its end; behind a new bullet that hyphen is stripped.
\<close>

theorem rebullet_counterexample:
  "dishes_of (bold_sub (of_ascii ''- Dosa -'' @ [13])) = [of_ascii ''Dosa -'']
   \<and> rebullet 45 [of_ascii ''Dosa -''] = of_ascii ''- Dosa -''
   \<and> dishes_of (rebullet 45 (dishes_of (bold_sub (of_ascii ''- Dosa -'' @ [13]))))
       = [of_ascii ''Dosa'']"
  by (simp add: rebullet_def text_defs)

section \<open>Order of the suggestions\<close>

lemma split_nl_append:
  "10 \<notin> set x \<Longrightarrow> split_nl (x @ y) = (x @ hd (split_nl y)) # tl (split_nl y)"
proof (induction x)
  case Nil
  then show ?case using split_nl_nonempty [of y] by simp
next
  case (Cons a x)
  then show ?case by simp
qed

lemma first_line_prefix: "\<exists>z. xs = hd (split_nl xs) @ z"
proof (induction xs)
  case Nil
  then show ?case by simp
next
  case (Cons a xs)
  then obtain z where z: "xs = hd (split_nl xs) @ z" by blast
  show ?case
  proof (cases "a = 10")
    case True
    then show ?thesis by simp
  next
    case False
    obtain l ls where sp: "split_nl xs = l # ls"
      using split_nl_nonempty [of xs] by (cases "split_nl xs") auto
    with False z have "a # xs = hd (split_nl (a # xs)) @ z" by simp
    then show ?thesis by blast
  qed
qed

lemma find_close_decomp:
  "find_close xs = Some (content, rest) \<Longrightarrow> xs = content @ 42 # 42 # rest \<and> 10 \<notin> set content"
proof (induction xs arbitrary: content rule: find_close.induct)
  case (1 a b r)
  then show ?case by (auto split: if_splits)
qed simp_all

lemma find_close_rest:
  "find_close xs = Some (content, rest) \<Longrightarrow>
   find_close (content @ 42 # 42 # rest') = Some (content, rest')"
proof (induction xs arbitrary: content rule: find_close.induct)
  case (1 a b r)
  show ?case
  proof (cases "a = 42 \<and> b = 42")
    case True
    with "1.prems" show ?thesis by simp
  next
    case False
    with "1.prems" obtain c' where a: "a \<noteq> 10"
      and fc: "find_close (b # r) = Some (c', rest)" and content: "content = a # c'"
      by (auto split: if_splits)
    from False a fc have ih: "find_close (c' @ 42 # 42 # rest') = Some (c', rest')"
      by (intro "1.IH") auto
    obtain x ys where xy: "c' @ 42 # 42 # rest' = x # ys" by (cases c') auto
    have "x = b"
    proof (cases c')
      case Nil
      with fc have "b = 42" by (cases r) (auto split: if_splits)
      with Nil xy show ?thesis by simp
    next
      case (Cons y c'')
      with fc have "y = b" using find_close_head by fastforce
      with Cons xy show ?thesis by simp
    qed
    with False have "\<not> (a = 42 \<and> x = 42)" by simp
    then have "find_close (a # x # ys) =
        map_option (\<lambda>(content, rest'). (a # content, rest')) (find_close (x # ys))"
      using a by auto
    with ih xy content show ?thesis by simp
  qed
qed simp_all

lemma find_close_first_line:
  assumes "find_close xs = None"
  shows "find_close (hd (split_nl xs)) = None"
proof (rule ccontr)
  assume "find_close (hd (split_nl xs)) \<noteq> None"
  then obtain content r where fc: "find_close (hd (split_nl xs)) = Some (content, r)"
    by auto
  then have l: "hd (split_nl xs) = content @ 42 # 42 # r" by (simp add: find_close_decomp)
  obtain z where "xs = hd (split_nl xs) @ z" using first_line_prefix by blast
  with l have "xs = content @ 42 # 42 # (r @ z)" by simp
  moreover have "find_close (content @ 42 # 42 # (r @ z)) = Some (content, r @ z)"
    using fc by (rule find_close_rest)
  ultimately show False using assms by simp
qed

lemma bold_sub_match:
  assumes "find_close xs = Some (content, rest)"
  shows "bold_sub (42 # 42 # xs)
      = of_ascii ''<strong>'' @ content @ of_ascii ''</strong>'' @ bold_sub rest"
  by (subst bold_sub.simps) (simp add: assms)

lemma split_nl_bold_sub: "split_nl (bold_sub s) = map bold_sub (split_nl s)"
proof (induction s rule: bold_sub.induct)
  case 1
  then show ?case by simp
next
  case (2 c cs)
  show ?case
  proof (cases "if prefix [42, 42] (c # cs) then find_close (tl cs) else None")
    case None
    then have bs: "bold_sub (c # cs) = c # bold_sub cs"
      by (subst bold_sub.simps) (simp only: option.simps)
    have ih: "split_nl (bold_sub cs) = map bold_sub (split_nl cs)"
      using None by (rule "2.IH"(1))
    show ?thesis
    proof (cases "c = 10")
      case True
      then show ?thesis by (simp add: bs ih)
    next
      case False
      obtain l ls where sp: "split_nl cs = l # ls"
        using split_nl_nonempty [of cs] by (cases "split_nl cs") auto
      have "bold_sub (c # l) = c # bold_sub l"
      proof (cases "prefix [42, 42] (c # l)")
        case False
        then show ?thesis by (rule bold_sub_plain_Cons)
      next
        case True
        then obtain l' where c: "c = 42" and l: "l = 42 # l'" by (cases l) auto
        from l sp obtain a cs' where acs: "cs = a # cs'" by (cases cs) auto
        obtain m ms where sp': "split_nl cs' = m # ms"
          using split_nl_nonempty [of cs'] by (cases "split_nl cs'") auto
        from l sp acs sp' have cs: "cs = 42 # cs'" and l': "hd (split_nl cs') = l'"
          by (auto split: if_splits)
        from None c cs have "find_close cs' = None" by simp
        then have "find_close (hd (split_nl cs')) = None" by (rule find_close_first_line)
        then have "find_close l' = None" by (simp only: l')
        then show ?thesis unfolding c l by (intro bold_sub_star) simp
      qed
      then have cl: "bold_sub (c # l) = c # bold_sub l" .
      have "split_nl (c # bold_sub cs) = (c # bold_sub l) # map bold_sub ls"
        using False by (simp add: ih sp)
      moreover have "map bold_sub (split_nl (c # cs)) = bold_sub (c # l) # map bold_sub ls"
        using False by (simp add: sp del: bold_sub.simps)
      ultimately show ?thesis by (simp only: bs cl)
    qed
  next
    case (Some m)
    obtain content rest where m: "m = (content, rest)" by (cases m)
    from Some m have c: "c = 42" and pre: "prefix [42] cs"
      and fc: "find_close (tl cs) = Some (content, rest)"
      by (auto split: if_splits)
    from pre obtain cs' where cs: "cs = 42 # cs'" by (cases cs) auto
    from fc cs have dec: "cs' = content @ 42 # 42 # rest" and nl: "10 \<notin> set content"
      by (auto dest: find_close_decomp)
    have bs: "bold_sub (c # cs) =
        of_ascii ''<strong>'' @ content @ of_ascii ''</strong>'' @ bold_sub rest"
      unfolding c cs using fc cs by (intro bold_sub_match) simp
    have ih: "split_nl (bold_sub rest) = map bold_sub (split_nl rest)"
      using Some m [symmetric] by (rule "2.IH"(2))
    obtain r0 rs where sp: "split_nl rest = r0 # rs"
      using split_nl_nonempty [of rest] by (cases "split_nl rest") auto
    have "10 \<notin> set (42 # 42 # content @ [42, 42])" using nl by simp
    then have "split_nl ((42 # 42 # content @ [42, 42]) @ rest)
        = ((42 # 42 # content @ [42, 42]) @ hd (split_nl rest)) # tl (split_nl rest)"
      by (rule split_nl_append)
    then have "split_nl ((42 # 42 # content @ [42, 42]) @ rest)
        = ((42 # 42 # content @ [42, 42]) @ r0) # rs"
      by (simp only: sp list.sel)
    then have left: "split_nl (c # cs) = (42 # 42 # content @ 42 # 42 # r0) # rs"
      by (simp add: c cs dec)
    have "find_close (content @ 42 # 42 # r0) = Some (content, r0)"
      using fc by (rule find_close_rest)
    then have b0: "bold_sub (42 # 42 # content @ 42 # 42 # r0)
        = of_ascii ''<strong>'' @ content @ of_ascii ''</strong>'' @ bold_sub r0"
      by (rule bold_sub_match)
    have "10 \<notin> set (of_ascii ''<strong>'' @ content @ of_ascii ''</strong>'')"
      using nl by (simp add: of_ascii_def)
    then have "split_nl ((of_ascii ''<strong>'' @ content @ of_ascii ''</strong>'') @ bold_sub rest)
        = ((of_ascii ''<strong>'' @ content @ of_ascii ''</strong>'') @ hd (split_nl (bold_sub rest)))
            # tl (split_nl (bold_sub rest))"
      by (rule split_nl_append)
    then have "split_nl ((of_ascii ''<strong>'' @ content @ of_ascii ''</strong>'') @ bold_sub rest)
        = ((of_ascii ''<strong>'' @ content @ of_ascii ''</strong>'') @ bold_sub r0)
            # map bold_sub rs"
      by (simp only: ih sp list.sel list.map)
    then show ?thesis by (simp only: bs left b0 list.map append_assoc)
  qed
qed

lemma strip_chars_head:
  "strip_chars P s \<noteq> [] \<Longrightarrow> hd (strip_chars P s) = hd (dropWhile P s)"
proof -
  assume a: "strip_chars P s \<noteq> []"
  define t where "t = dropWhile P s"
  from a have u: "dropWhile P (rev t) \<noteq> []" by (simp add: strip_chars_def t_def)
  then have "last (dropWhile P (rev t)) = last (rev t)" by (rule last_dropWhile_nonempty)
  moreover from u have "t \<noteq> []" by auto
  ultimately show ?thesis using u by (simp add: strip_chars_def t_def hd_rev last_rev)
qed

lemma strip_chars_nonempty_iff: "strip_chars P s = [] \<longleftrightarrow> dropWhile P s = []"
  by (simp only: strip_chars_empty_iff dropWhile_eq_Nil_conv)

lemma is_dish_line_iff:
  "is_dish_line l \<longleftrightarrow>
     dropWhile is_space l \<noteq> [] \<and> hd (dropWhile is_space l) \<in> {8226, 45, 42}"
proof (cases "strip_chars is_space l = []")
  case True
  then have d: "dropWhile is_space l = []" by (simp only: strip_chars_nonempty_iff)
  from True have "\<not> is_dish_line l"
    by (simp add: is_dish_line_def startswith_bullets strip_def)
  with d show ?thesis by blast
next
  case False
  then have d: "dropWhile is_space l \<noteq> []"
    by (simp only: strip_chars_nonempty_iff not_False_eq_True)
  from False have h: "hd (strip_chars is_space l) = hd (dropWhile is_space l)"
    by (rule strip_chars_head)
  from False have "is_dish_line l \<longleftrightarrow> hd (strip_chars is_space l) \<in> {8226, 45, 42}"
    by (simp add: is_dish_line_def startswith_bullets strip_def)
  with d h show ?thesis by metis
qed

lemma dropWhile_space_bold_sub:
  "dropWhile is_space (bold_sub l) = bold_sub (dropWhile is_space l)"
proof (induction l)
  case Nil
  then show ?case by simp
next
  case (Cons c l)
  show ?case
  proof (cases "is_space c")
    case True
    then have "c \<noteq> 42" by (auto simp: is_space_def)
    then have "bold_sub (c # l) = c # bold_sub l" by (intro bold_sub_plain_Cons) simp
    with True Cons show ?thesis by simp
  next
    case False
    have "bold_sub (c # l) \<noteq> [] \<and> \<not> is_space (hd (bold_sub (c # l)))"
    proof (cases "if prefix [42, 42] (c # l) then find_close (tl l) else None")
      case None
      then have "bold_sub (c # l) = c # bold_sub l"
        by (subst bold_sub.simps) (simp only: option.simps)
      with False show ?thesis by simp
    next
      case (Some m)
      obtain content rest where m: "m = (content, rest)" by (cases m)
      from Some have "bold_sub (c # l) =
          of_ascii ''<strong>'' @ content @ of_ascii ''</strong>'' @ bold_sub rest"
        unfolding m by (subst bold_sub.simps) (simp only: option.simps prod.case)
      then show ?thesis by (simp add: of_ascii_def is_space_def)
    qed
    then have "dropWhile is_space (bold_sub (c # l)) = bold_sub (c # l)"
      by (intro dropWhile_id) simp
    with False show ?thesis by simp
  qed
qed

lemma bold_sub_head_bullet:
  assumes "bold_sub y \<noteq> []" and "hd (bold_sub y) \<in> {8226, 45, 42}"
  shows "y \<noteq> [] \<and> hd y \<in> {8226, 45, 42}"
proof (cases y)
  case Nil
  with assms show ?thesis by simp
next
  case (Cons c cs)
  show ?thesis
  proof (cases "if prefix [42, 42] (c # cs) then find_close (tl cs) else None")
    case None
    then have "bold_sub (c # cs) = c # bold_sub cs"
      by (subst bold_sub.simps) (simp only: option.simps)
    with assms Cons show ?thesis by simp
  next
    case (Some m)
    obtain content rest where m: "m = (content, rest)" by (cases m)
    from Some have "bold_sub (c # cs) =
        of_ascii ''<strong>'' @ content @ of_ascii ''</strong>'' @ bold_sub rest"
      unfolding m by (subst bold_sub.simps) (simp only: option.simps prod.case)
    with assms Cons show ?thesis by (simp add: of_ascii_def)
  qed
qed

lemma is_dish_line_bold_sub: "is_dish_line (bold_sub l) \<Longrightarrow> is_dish_line l"
  unfolding is_dish_line_iff dropWhile_space_bold_sub by (rule bold_sub_head_bullet) auto

lemma no_dish_lines_bold_sub:
  assumes "\<forall>l \<in> set (split_nl raw). \<not> is_dish_line l"
  shows "dishes_of (bold_sub raw) = []"
proof -
  have "filter is_dish_line (map bold_sub (split_nl raw)) = []"
    using assms is_dish_line_bold_sub by (auto simp: filter_empty_conv)
  then show ?thesis by (simp add: dishes_of_def split_nl_bold_sub)
qed

lemma ask_groq_content:
  assumes "GROQ_API_KEY env \<noteq> []" and "GROQ_API_KEY env \<noteq> of_ascii ''dummy_groq_key''"
    and "groq_create env prompt w = (Content raw, w')"
  shows "ask_groq env prompt w = (bold_sub raw, w')"
  using assms by (simp add: ask_groq_def)

text \<open>
  C8. The names returned by \<open>suggest\<close> are the cleaned bullet lines of the text that
  \<open>ask_groq\<close> returned, in the order of the lines and one for each such line, so equal
  names stay. When the model answered with the raw response \<open>raw\<close>, these are the lines
  of \<open>raw\<close> that are bullet lines once normalized, in their order in \<open>raw\<close>; if \<open>raw\<close> has
  no bullet line, \<open>suggest\<close> returns the empty list. The extraction returns the empty list
  for every text without a bullet line.
\<close>

theorem suggest_keeps_order:
  "map name (fst (suggest env form w))
     = map clean_line (filter is_dish_line (split_nl (fst (ask_groq env
         (suggest_prompt (case form of None \<Rightarrow> [] | Some s \<Rightarrow> s)) w))))
   \<and> length (fst (suggest env form w))
     = length (filter is_dish_line (split_nl (fst (ask_groq env
         (suggest_prompt (case form of None \<Rightarrow> [] | Some s \<Rightarrow> s)) w))))
   \<and> (GROQ_API_KEY env \<noteq> [] \<and> GROQ_API_KEY env \<noteq> of_ascii ''dummy_groq_key''
        \<and> groq_create env (suggest_prompt (case form of None \<Rightarrow> [] | Some s \<Rightarrow> s)) w
            = (Content raw, w') \<longrightarrow>
      map name (fst (suggest env form w))
        = map (\<lambda>l. clean_line (bold_sub l)) (filter (\<lambda>l. is_dish_line (bold_sub l)) (split_nl raw))
      \<and> ((\<forall>l \<in> set (split_nl raw). \<not> is_dish_line l) \<longrightarrow> suggest env form w = ([], w')))
   \<and> ((\<forall>l \<in> set (split_nl text). \<not> is_dish_line l) \<longrightarrow> dishes_of text = [])"
proof (intro conjI impI)
  let ?p = "suggest_prompt (case form of None \<Rightarrow> [] | Some s \<Rightarrow> s)"
  have names: "map name (fst (suggest env form w)) = dishes_of (fst (ask_groq env ?p w))"
    unfolding suggest_unfold by (rule with_images_names)
  then show n: "map name (fst (suggest env form w))
     = map clean_line (filter is_dish_line (split_nl (fst (ask_groq env ?p w))))"
    by (simp add: dishes_of_def)
  have "length (fst (suggest env form w)) = length (map name (fst (suggest env form w)))"
    by simp
  then show "length (fst (suggest env form w))
     = length (filter is_dish_line (split_nl (fst (ask_groq env ?p w))))"
    unfolding n by simp
  { assume a: "GROQ_API_KEY env \<noteq> [] \<and> GROQ_API_KEY env \<noteq> of_ascii ''dummy_groq_key''
        \<and> groq_create env ?p w = (Content raw, w')"
    then have ask: "ask_groq env ?p w = (bold_sub raw, w')" by (intro ask_groq_content) auto
    show "map name (fst (suggest env form w))
        = map (\<lambda>l. clean_line (bold_sub l)) (filter (\<lambda>l. is_dish_line (bold_sub l)) (split_nl raw))"
      by (simp add: names ask dishes_of_def split_nl_bold_sub filter_map o_def)
    { assume "\<forall>l \<in> set (split_nl raw). \<not> is_dish_line l"
      then have "dishes_of (bold_sub raw) = []" by (rule no_dish_lines_bold_sub)
      then show "suggest env form w = ([], w')" by (simp add: suggest_unfold ask) } }
next
  assume "\<forall>l \<in> set (split_nl text). \<not> is_dish_line l"
  then show "dishes_of text = []" by (simp add: dishes_of_def filter_empty_conv)
qed

theorem suggest_keeps_order_witness:
  "map name (fst (suggest
      (example_env \<lparr> groq_create := (\<lambda>prompt w.
          (Content (of_ascii ''- Dal'' @ [10] @ of_ascii ''Some prose'' @ [10]
             @ of_ascii ''* **Aloo Gobi**'' @ [10] @ of_ascii ''- Dal''), w)) \<rparr>)
      (Some (of_ascii ''lentils'')) []))
     = [of_ascii ''Dal'', of_ascii ''Aloo Gobi'', of_ascii ''Dal'']
   \<and> suggest
      (example_env \<lparr> groq_create := (\<lambda>prompt w.
          (Content (of_ascii ''I cannot help with that.'' @ [10] @ of_ascii ''Sorry!''), w)) \<rparr>)
      (Some (of_ascii ''lentils'')) [] = ([], [])"
  using suggest_keeps_order [of
      "example_env \<lparr> groq_create := (\<lambda>prompt w.
          (Content (of_ascii ''- Dal'' @ [10] @ of_ascii ''Some prose'' @ [10]
             @ of_ascii ''* **Aloo Gobi**'' @ [10] @ of_ascii ''- Dal''), w)) \<rparr>"
      "Some (of_ascii ''lentils'')" "[]"
      "of_ascii ''- Dal'' @ [10] @ of_ascii ''Some prose'' @ [10]
             @ of_ascii ''* **Aloo Gobi**'' @ [10] @ of_ascii ''- Dal''" "[]" "[]"]
    suggest_keeps_order [of
      "example_env \<lparr> groq_create := (\<lambda>prompt w.
          (Content (of_ascii ''I cannot help with that.'' @ [10] @ of_ascii ''Sorry!''), w)) \<rparr>"
      "Some (of_ascii ''lentils'')" "[]"
      "of_ascii ''I cannot help with that.'' @ [10] @ of_ascii ''Sorry!''" "[]" "[]"]
  by (simp add: env_defs route_defs text_defs)

section \<open>Whitespace, bullets and tags in the names\<close>

lemma length_strong_sub: "length (strong_sub s) \<le> length s"
proof (induction s rule: strong_sub.induct)
  case 1
  then show ?case by simp
next
  case (2 c cs)
  consider (open_tag) "prefix (of_ascii ''<strong>'') (c # cs)"
    | (close_tag) "\<not> prefix (of_ascii ''<strong>'') (c # cs)"
        "prefix (of_ascii ''</strong>'') (c # cs)"
    | (plain) "\<not> prefix (of_ascii ''<strong>'') (c # cs)"
        "\<not> prefix (of_ascii ''</strong>'') (c # cs)"
    by blast
  then show ?case
  proof cases
    case open_tag
    then have "length (strong_sub (c # cs)) \<le> length (drop 7 cs)"
      using "2.IH"(1) by simp
    then show ?thesis by simp
  next
    case close_tag
    then have "length (strong_sub (c # cs)) \<le> length (drop 8 cs)"
      using "2.IH"(2) by simp
    then show ?thesis by simp
  next
    case plain
    then show ?thesis using "2.IH"(3) by simp
  qed
qed

lemma strong_sub_open: "strong_sub (of_ascii ''<strong>'' @ post) = strong_sub post"
  by (simp add: of_ascii_def)

lemma strong_sub_close: "strong_sub (of_ascii ''</strong>'' @ post) = strong_sub post"
  by (simp add: of_ascii_def)

lemma strong_sub_shrinks:
  assumes "t = of_ascii ''<strong>'' \<or> t = of_ascii ''</strong>''"
  shows "length (strong_sub (pre @ t @ post)) < length (pre @ t @ post)"
proof (induction pre)
  case Nil
  have e: "strong_sub (t @ post) = strong_sub post"
    using assms strong_sub_open strong_sub_close by auto
  have "length (strong_sub (t @ post)) \<le> length post"
    unfolding e by (rule length_strong_sub)
  also have "length post < length (t @ post)" using assms by (auto simp: of_ascii_def)
  finally show ?case by simp
next
  case (Cons c p)
  let ?cs = "p @ t @ post"
  consider (open_tag) "prefix (of_ascii ''<strong>'') (c # ?cs)"
    | (close_tag) "\<not> prefix (of_ascii ''<strong>'') (c # ?cs)"
        "prefix (of_ascii ''</strong>'') (c # ?cs)"
    | (plain) "\<not> prefix (of_ascii ''<strong>'') (c # ?cs)"
        "\<not> prefix (of_ascii ''</strong>'') (c # ?cs)"
    by blast
  then have "length (strong_sub (c # ?cs)) < length (c # ?cs)"
  proof cases
    case open_tag
    then have "strong_sub (c # ?cs) = strong_sub (drop 7 ?cs)" by simp
    moreover have "length (strong_sub (drop 7 ?cs)) \<le> length (drop 7 ?cs)"
      by (rule length_strong_sub)
    ultimately show ?thesis by simp
  next
    case close_tag
    then have "strong_sub (c # ?cs) = strong_sub (drop 8 ?cs)" by simp
    moreover have "length (strong_sub (drop 8 ?cs)) \<le> length (drop 8 ?cs)"
      by (rule length_strong_sub)
    ultimately show ?thesis by simp
  next
    case plain
    then have "strong_sub (c # ?cs) = c # strong_sub ?cs" by simp
    with Cons.IH show ?thesis by simp
  qed
  then show ?case by simp
qed

lemma strong_sub_fixed_no_tag:
  assumes "strong_sub x = x"
  shows "\<not> sublist (of_ascii ''<strong>'') x \<and> \<not> sublist (of_ascii ''</strong>'') x"
proof -
  { fix t assume t: "t = of_ascii ''<strong>'' \<or> t = of_ascii ''</strong>''"
      and "sublist t x"
    then obtain pre post where "x = pre @ t @ post" by (auto simp: sublist_def)
    with strong_sub_shrinks [OF t, of pre post] assms have False by simp }
  then show ?thesis by blast
qed

lemma sublist_strip_chars: "sublist (strip_chars P s) s"
  using strip_chars_split [of s P] by (auto simp: sublist_def)

lemma sublist_clean_line: "sublist (clean_line l) (strong_sub l)"
proof -
  have "sublist (clean_line l) (strip_set [8226, 45, 42, 32] (strong_sub l))"
    unfolding clean_line_def strip_def by (rule sublist_strip_chars)
  moreover have "sublist (strip_set [8226, 45, 42, 32] (strong_sub l)) (strong_sub l)"
    unfolding strip_set_def by (rule sublist_strip_chars)
  ultimately show ?thesis by (rule sublist_order.order_trans)
qed

lemma clean_line_no_tag:
  assumes "strong_sub (strong_sub l) = strong_sub l"
  shows "\<not> sublist (of_ascii ''<strong>'') (clean_line l)
       \<and> \<not> sublist (of_ascii ''</strong>'') (clean_line l)"
proof -
  from assms have "\<not> sublist (of_ascii ''<strong>'') (strong_sub l)
      \<and> \<not> sublist (of_ascii ''</strong>'') (strong_sub l)"
    by (rule strong_sub_fixed_no_tag)
  then show ?thesis using sublist_clean_line [of l] sublist_order.order_trans by blast
qed

lemma only_tags_drop: "only_tags cs \<Longrightarrow> only_tags (drop n cs)"
proof (induction cs arbitrary: n)
  case Nil
  then show ?case by simp
next
  case (Cons c cs)
  then show ?case by (cases n) simp_all
qed

lemma only_tags_strong_sub: "only_tags s \<Longrightarrow> 60 \<notin> set (strong_sub s)"
proof (induction s rule: strong_sub.induct)
  case 1
  then show ?case by simp
next
  case (2 c cs)
  from "2.prems" have cs: "only_tags cs" by simp
  consider (open_tag) "prefix (of_ascii ''<strong>'') (c # cs)"
    | (close_tag) "\<not> prefix (of_ascii ''<strong>'') (c # cs)"
        "prefix (of_ascii ''</strong>'') (c # cs)"
    | (plain) "\<not> prefix (of_ascii ''<strong>'') (c # cs)"
        "\<not> prefix (of_ascii ''</strong>'') (c # cs)"
    by blast
  then show ?case
  proof cases
    case open_tag
    then have "strong_sub (c # cs) = strong_sub (drop 7 cs)" by simp
    moreover have "60 \<notin> set (strong_sub (drop 7 cs))"
      using open_tag only_tags_drop [OF cs] by (rule "2.IH"(1))
    ultimately show ?thesis by simp
  next
    case close_tag
    then have "strong_sub (c # cs) = strong_sub (drop 8 cs)" by simp
    moreover have "60 \<notin> set (strong_sub (drop 8 cs))"
      using close_tag only_tags_drop [OF cs] by (rule "2.IH"(2))
    ultimately show ?thesis by simp
  next
    case plain
    then have s: "strong_sub (c # cs) = c # strong_sub cs" by simp
    from plain "2.prems" have "c \<noteq> 60" by (auto simp: of_ascii_def)
    moreover have "60 \<notin> set (strong_sub cs)" using plain cs by (rule "2.IH"(3))
    ultimately show ?thesis unfolding s by simp
  qed
qed

lemma clean_line_no_lt: "only_tags l \<Longrightarrow> 60 \<notin> set (clean_line l)"
proof -
  assume "only_tags l"
  then have "60 \<notin> set (strong_sub l)" by (rule only_tags_strong_sub)
  moreover have "set (clean_line l) \<subseteq> set (strong_sub l)"
    unfolding clean_line_def strip_def strip_set_def
    using strip_chars_subset by blast
  ultimately show ?thesis by auto
qed

lemma only_tags_append: "60 \<notin> set a \<Longrightarrow> only_tags (a @ b) = only_tags b"
  by (induction a) auto

lemma only_tags_wrapped:
  "60 \<notin> set content \<Longrightarrow>
   only_tags (of_ascii ''<strong>'' @ content @ of_ascii ''</strong>'' @ ys) = only_tags ys"
proof -
  assume c: "60 \<notin> set content"
  have "only_tags (of_ascii ''<strong>'' @ content @ of_ascii ''</strong>'' @ ys)
      = only_tags (content @ of_ascii ''</strong>'' @ ys)"
    by (simp add: of_ascii_def)
  also have "\<dots> = only_tags (of_ascii ''</strong>'' @ ys)"
    using c by (rule only_tags_append)
  also have "\<dots> = only_tags ys" by (simp add: of_ascii_def)
  finally show ?thesis .
qed

lemma only_tags_bold_sub: "60 \<notin> set raw \<Longrightarrow> only_tags (bold_sub raw)"
proof (induction raw rule: bold_sub.induct)
  case 1
  then show ?case by simp
next
  case (2 c cs)
  show ?case
  proof (cases "if prefix [42, 42] (c # cs) then find_close (tl cs) else None")
    case None
    then have bs: "bold_sub (c # cs) = c # bold_sub cs"
      by (subst bold_sub.simps) (simp only: option.simps)
    from "2.prems" have "c \<noteq> 60" "60 \<notin> set cs" by auto
    moreover from None \<open>60 \<notin> set cs\<close> have "only_tags (bold_sub cs)" by (rule "2.IH"(1))
    ultimately show ?thesis unfolding bs by simp
  next
    case (Some m)
    obtain content rest where m: "m = (content, rest)" by (cases m)
    from Some have bs: "bold_sub (c # cs) =
        of_ascii ''<strong>'' @ content @ of_ascii ''</strong>'' @ bold_sub rest"
      unfolding m by (subst bold_sub.simps) (simp only: option.simps prod.case)
    from Some m have "find_close (tl cs) = Some (content, rest)" by (simp split: if_splits)
    then have "tl cs = content @ 42 # 42 # rest" by (simp add: find_close_decomp)
    moreover have "set (tl cs) \<subseteq> set cs" by (cases cs) auto
    ultimately have "set content \<subseteq> set cs" "set rest \<subseteq> set cs" by auto
    with "2.prems" have c: "60 \<notin> set content" and r: "60 \<notin> set rest" by auto
    from Some m [symmetric] r have "only_tags (bold_sub rest)" by (rule "2.IH"(2))
    then show ?thesis unfolding bs by (simp only: only_tags_wrapped [OF c])
  qed
qed

lemma prefix_first_line:
  assumes "10 \<notin> set t" and "prefix t cs"
  shows "prefix t (hd (split_nl cs))"
proof -
  from assms(2) obtain z where "cs = t @ z" by (auto simp: prefix_def)
  then have "split_nl cs = (t @ hd (split_nl z)) # tl (split_nl z)"
    using split_nl_append [OF assms(1), of z] by simp
  then show ?thesis by simp
qed

lemma only_tags_line: "only_tags s \<Longrightarrow> l \<in> set (split_nl s) \<Longrightarrow> only_tags l"
proof (induction s arbitrary: l)
  case Nil
  then show ?case by simp
next
  case (Cons c s)
  from Cons.prems(1) have s: "only_tags s" by simp
  show ?case
  proof (cases "c = 10")
    case True
    with Cons.prems(2) have "l = [] \<or> l \<in> set (split_nl s)" by simp
    with Cons.IH [OF s] show ?thesis by auto
  next
    case False
    obtain l0 ls where sp: "split_nl s = l0 # ls"
      using split_nl_nonempty [of s] by (cases "split_nl s") auto
    with False Cons.prems(2) have "l = c # l0 \<or> l \<in> set ls" by simp
    then show ?thesis
    proof
      assume "l \<in> set ls"
      then show ?thesis using Cons.IH [OF s, of l] sp by simp
    next
      assume l: "l = c # l0"
      have l0: "only_tags l0" using Cons.IH [OF s, of l0] sp by simp
      have h: "hd (split_nl s) = l0" using sp by simp
      { assume "c = 60"
        with Cons.prems(1)
        have "prefix (of_ascii ''strong>'') s \<or> prefix (of_ascii ''/strong>'') s" by simp
        then have "prefix (of_ascii ''strong>'') l0 \<or> prefix (of_ascii ''/strong>'') l0"
        proof
          assume "prefix (of_ascii ''strong>'') s"
          then have "prefix (of_ascii ''strong>'') (hd (split_nl s))"
            by (intro prefix_first_line) (simp add: of_ascii_def)
          then show ?thesis unfolding h by blast
        next
          assume "prefix (of_ascii ''/strong>'') s"
          then have "prefix (of_ascii ''/strong>'') (hd (split_nl s))"
            by (intro prefix_first_line) (simp add: of_ascii_def)
          then show ?thesis unfolding h by blast
        qed }
      with l0 show ?thesis unfolding l by simp
    qed
  qed
qed

lemma dishes_of_no_lt:
  assumes "60 \<notin> set raw" and "d \<in> set (dishes_of (bold_sub raw))"
  shows "60 \<notin> set d"
proof -
  from assms(2) obtain l where l: "l \<in> set (split_nl (bold_sub raw))" and d: "d = clean_line l"
    by (auto simp: dishes_of_def)
  from assms(1) have "only_tags (bold_sub raw)" by (rule only_tags_bold_sub)
  then have "only_tags l" using l by (rule only_tags_line)
  then show ?thesis unfolding d by (rule clean_line_no_lt)
qed

lemma no_lt_no_tag:
  "60 \<notin> set d \<Longrightarrow>
   \<not> sublist (of_ascii ''<strong>'') d \<and> \<not> sublist (of_ascii ''</strong>'') d"
  by (auto simp: sublist_def of_ascii_def)

text \<open>
  C4 (as amended). Every name produced by \<open>suggest\<close> holds no newline and has no
  whitespace at either end. When the only whitespace of the text is the space and the
  newline, a name neither begins nor ends with a bullet character; bullet characters
  inside a name stay. A name holds no strong tag, unless the tag is formed only by the
  removal of other tags: whenever removing the tags of the line leaves a text that a
  second removal would not change, the name holds neither tag. In particular, when every
  \<open><\<close> of the line begins a tag the name holds no \<open><\<close>, and for every raw response
  without \<open><\<close> no name of the normalized response holds a \<open><\<close> or a tag.
\<close>

theorem dish_name_trimmed:
  "(\<forall>d \<in> set (dishes_of text).
      10 \<notin> set d \<and> (d = [] \<or> (\<not> is_space (hd d) \<and> \<not> is_space (last d))))
   \<and> ((\<forall>c \<in> set text. is_space c \<longrightarrow> c = 32 \<or> c = 10) \<longrightarrow>
      (\<forall>d \<in> set (dishes_of text).
         d = [] \<or> (hd d \<notin> {8226, 45, 42} \<and> last d \<notin> {8226, 45, 42})))
   \<and> dishes_of text = map clean_line (filter is_dish_line (split_nl text))
   \<and> (\<forall>l \<in> set (filter is_dish_line (split_nl text)).
        strong_sub (strong_sub l) = strong_sub l \<longrightarrow>
        \<not> sublist (of_ascii ''<strong>'') (clean_line l)
        \<and> \<not> sublist (of_ascii ''</strong>'') (clean_line l))
   \<and> (\<forall>l \<in> set (filter is_dish_line (split_nl text)).
        only_tags l \<longrightarrow> 60 \<notin> set (clean_line l))
   \<and> (60 \<notin> set raw \<longrightarrow>
        (\<forall>d \<in> set (dishes_of (bold_sub raw)).
           60 \<notin> set d \<and> \<not> sublist (of_ascii ''<strong>'') d
           \<and> \<not> sublist (of_ascii ''</strong>'') d))"
proof (intro conjI)
  show "\<forall>d \<in> set (dishes_of text).
      10 \<notin> set d \<and> (d = [] \<or> (\<not> is_space (hd d) \<and> \<not> is_space (last d)))"
  proof
    fix d assume "d \<in> set (dishes_of text)"
    then obtain l where l: "l \<in> set (split_nl text)" and d: "d = clean_line l"
      by (auto simp: dishes_of_def)
    from l have "10 \<notin> set l" by (rule split_nl_no_newline)
    then have "10 \<notin> set d" using clean_line_subset [of l] d by auto
    moreover have "d = [] \<or> (\<not> is_space (hd d) \<and> \<not> is_space (last d))"
      unfolding d by (rule clean_line_ends)
    ultimately show "10 \<notin> set d \<and> (d = [] \<or> (\<not> is_space (hd d) \<and> \<not> is_space (last d)))"
      by blast
  qed
next
  show "(\<forall>c \<in> set text. is_space c \<longrightarrow> c = 32 \<or> c = 10) \<longrightarrow>
      (\<forall>d \<in> set (dishes_of text).
         d = [] \<or> (hd d \<notin> {8226, 45, 42} \<and> last d \<notin> {8226, 45, 42}))"
  proof (intro impI ballI)
    fix d
    assume ws: "\<forall>c \<in> set text. is_space c \<longrightarrow> c = 32 \<or> c = 10"
      and "d \<in> set (dishes_of text)"
    then obtain l where l: "l \<in> set (split_nl text)" and d: "d = clean_line l"
      by (auto simp: dishes_of_def)
    from l have "10 \<notin> set l" "set l \<subseteq> set text"
      by (rule split_nl_no_newline, rule split_nl_subset)
    with ws have "\<forall>c \<in> set l. is_space c \<longrightarrow> c = 32" by auto
    then show "d = [] \<or> (hd d \<notin> {8226, 45, 42} \<and> last d \<notin> {8226, 45, 42})"
      unfolding d by (rule clean_line_bullet_ends)
  qed
next
  show "dishes_of text = map clean_line (filter is_dish_line (split_nl text))"
    by (simp add: dishes_of_def)
next
  show "\<forall>l \<in> set (filter is_dish_line (split_nl text)).
        strong_sub (strong_sub l) = strong_sub l \<longrightarrow>
        \<not> sublist (of_ascii ''<strong>'') (clean_line l)
        \<and> \<not> sublist (of_ascii ''</strong>'') (clean_line l)"
    using clean_line_no_tag by blast
next
  show "\<forall>l \<in> set (filter is_dish_line (split_nl text)).
        only_tags l \<longrightarrow> 60 \<notin> set (clean_line l)"
    using clean_line_no_lt by blast
next
  show "60 \<notin> set raw \<longrightarrow>
        (\<forall>d \<in> set (dishes_of (bold_sub raw)).
           60 \<notin> set d \<and> \<not> sublist (of_ascii ''<strong>'') d
           \<and> \<not> sublist (of_ascii ''</strong>'') d)"
    using dishes_of_no_lt no_lt_no_tag by blast
qed

theorem dish_name_trimmed_witness:
  "dishes_of (bold_sub (of_ascii ''- **Tomato Soup**'' @ [10] @ of_ascii ''* Garlic Bread''))
     = [of_ascii ''Tomato Soup'', of_ascii ''Garlic Bread'']
   \<and> 10 \<notin> set (of_ascii ''Tomato Soup'')
   \<and> \<not> is_space (hd (of_ascii ''Tomato Soup''))
   \<and> \<not> is_space (last (of_ascii ''Tomato Soup''))
   \<and> hd (of_ascii ''Tomato Soup'') \<notin> {8226, 45, 42}
   \<and> last (of_ascii ''Tomato Soup'') \<notin> {8226, 45, 42}
   \<and> is_dish_line (of_ascii ''- <strong>Tomato Soup</strong>'')
   \<and> strong_sub (strong_sub (of_ascii ''- <strong>Tomato Soup</strong>''))
       = strong_sub (of_ascii ''- <strong>Tomato Soup</strong>'')
   \<and> only_tags (of_ascii ''- <strong>Tomato Soup</strong>'')
   \<and> clean_line (of_ascii ''- <strong>Tomato Soup</strong>'') = of_ascii ''Tomato Soup''
   \<and> 60 \<notin> set (of_ascii ''- **Tomato Soup**'' @ [10] @ of_ascii ''* Garlic Bread'')
   \<and> \<not> sublist (of_ascii ''<strong>'') (of_ascii ''Tomato Soup'')
   \<and> \<not> sublist (of_ascii ''</strong>'') (of_ascii ''Tomato Soup'')"
  using dish_name_trimmed [of
      "bold_sub (of_ascii ''- **Tomato Soup**'' @ [10] @ of_ascii ''* Garlic Bread'')"
      "of_ascii ''- **Tomato Soup**'' @ [10] @ of_ascii ''* Garlic Bread''"]
  by (simp add: text_defs sublist_code(3))

text \<open>
  C4 as stated fails: the hyphen of \<open>Stir-fry\<close> is a bullet character inside a name, and
  removing the inner tag of \<open><str<strong>ong>\<close> leaves a tag in the name.
\<close>

theorem dish_name_counterexample:
  "dishes_of (bold_sub (of_ascii ''- Stir-fry'')) = [of_ascii ''Stir-fry'']
   \<and> 45 \<in> set (of_ascii ''Stir-fry'')
   \<and> dishes_of (bold_sub (of_ascii ''- <str<strong>ong>Dal'')) = [of_ascii ''<strong>Dal'']"
  by (simp add: text_defs)

end
